theory Spec2Isabelle
  imports Complex_Main "HOL-Library.AList"
begin

section \<open>JavaScript values\<close>

text \<open>
  The script works on the documents that \<^verbatim>\<open>JSON.parse\<close> yields, and reads them
  defensively (\<^verbatim>\<open>node?.visible\<close>, \<^verbatim>\<open>filter(Boolean)\<close>, \<^verbatim>\<open>!entry\<close>), so the values
  are modelled untyped, as the code has them.

  \<^item> A number is represented by the text \<^verbatim>\<open>String(n)\<close> gives for it. The functions
    modelled here never compute with a number: they test it for truthiness, compare it
    with \<^verbatim>\<open>SameValueZero\<close> (as a \<^verbatim>\<open>Set\<close> or \<^verbatim>\<open>Map\<close> key) and convert it to a property
    key, and all three are functions of that text.
  \<^item> An object is the list of its own enumerable properties in order; where a key occurs
    twice in the list only its first binding counts.
  \<^item> \<^verbatim>\<open>Set\<close> and \<^verbatim>\<open>Map\<close> compare keys with \<^verbatim>\<open>SameValueZero\<close>. On \<^verbatim>\<open>undefined\<close>,
    \<^verbatim>\<open>null\<close>, booleans, numbers and strings that is equality of values, which is what
    the embedding uses. Arrays and objects are compared by reference in JavaScript; the
    identifiers of the crawl are strings.
\<close>

datatype jsval =
    JUndefined
  | JNull
  | JBool bool
  | JNum string
  | JStr string
  | JArr "jsval list"
  | JObj "(string \<times> jsval) list"

type_synonym jsobj = "(string \<times> jsval) list"

text \<open>\<^verbatim>\<open>Boolean(v)\<close>, the test behind \<^verbatim>\<open>!v\<close>, \<^verbatim>\<open>||\<close> and \<^verbatim>\<open>filter(Boolean)\<close>.\<close>

fun truthy :: "jsval \<Rightarrow> bool" where
  "truthy JUndefined = False"
| "truthy JNull = False"
| "truthy (JBool b) = b"
| "truthy (JNum n) = (n \<noteq> ''0'' \<and> n \<noteq> ''NaN'')"
| "truthy (JStr s) = (s \<noteq> [])"
| "truthy (JArr xs) = True"
| "truthy (JObj kvs) = True"

definition nullish :: "jsval \<Rightarrow> bool" where
  "nullish v = (v = JUndefined \<or> v = JNull)"

text \<open>The decimal text of an array index.\<close>

fun show_nat :: "nat \<Rightarrow> string" where
  "show_nat n = (if n < 10 then [''0123456789'' ! n]
     else show_nat (n div 10) @ [''0123456789'' ! (n mod 10)])"

declare show_nat.simps [simp del]

text \<open>
  The own enumerable properties of a value, as \<^verbatim>\<open>Object.entries(v)\<close> and the spread
  \<^verbatim>\<open>{ ...v }\<close> see them: the bindings of an object, the indexed elements of an array, the
  indexed characters of a string, nothing for the other primitives.
\<close>

fun own_entries :: "jsval \<Rightarrow> jsobj" where
  "own_entries (JObj kvs) = AList.clearjunk kvs"
| "own_entries (JArr xs) = zip (map show_nat [0..<length xs]) xs"
| "own_entries (JStr s) = zip (map show_nat [0..<length s]) (map (\<lambda>c. JStr [c]) s)"
| "own_entries v = []"

text \<open>
  The property read \<^verbatim>\<open>v[k]\<close> on a value that is neither \<^verbatim>\<open>null\<close> nor \<^verbatim>\<open>undefined\<close>, and
  the optional read \<^verbatim>\<open>v?.[k]\<close> on any value. Inherited properties are not modelled: the
  script reads the fixed names \<^verbatim>\<open>visible\<close>, \<^verbatim>\<open>children\<close>, \<^verbatim>\<open>id\<close>, \<^verbatim>\<open>name\<close>, \<^verbatim>\<open>type\<close>,
  \<^verbatim>\<open>nodes\<close> and \<^verbatim>\<open>document\<close>, which no built-in prototype of a parsed value defines, and
  \<^verbatim>\<open>nodes[id]\<close>, whose result is used only through its \<^verbatim>\<open>document\<close>, which an inherited
  number or function does not have either.
\<close>

definition js_get :: "jsval \<Rightarrow> string \<Rightarrow> jsval" where
  "js_get v k = (case map_of (own_entries v) k of Some x \<Rightarrow> x | None \<Rightarrow> JUndefined)"

fun join :: "string \<Rightarrow> string list \<Rightarrow> string" where
  "join sep [] = []"
| "join sep [x] = x"
| "join sep (x # y # ys) = x @ sep @ join sep (y # ys)"

text \<open>\<^verbatim>\<open>String(v)\<close>, the conversion of a value used as a property key in \<^verbatim>\<open>nodes[id]\<close>.\<close>

fun to_string :: "jsval \<Rightarrow> string" where
  "to_string JUndefined = ''undefined''"
| "to_string JNull = ''null''"
| "to_string (JBool b) = (if b then ''true'' else ''false'')"
| "to_string (JNum n) = n"
| "to_string (JStr s) = s"
| "to_string (JArr xs) =
     join '','' (map (\<lambda>x. if x = JUndefined \<or> x = JNull then [] else to_string x) xs)"
| "to_string (JObj kvs) = ''[object Object]''"

text \<open>
  The assignment \<^verbatim>\<open>out[k] = v\<close> on an object literal. It defines the own property \<^verbatim>\<open>k\<close>,
  in place when \<^verbatim>\<open>out\<close> has it and at the end otherwise, for every key but one: for
  \<^verbatim>\<open>__proto__\<close> the assignment reaches the accessor of \<^verbatim>\<open>Object.prototype\<close>, which
  sets the prototype of \<^verbatim>\<open>out\<close> or does nothing, and \<^verbatim>\<open>out\<close> gets no own property.
\<close>

definition assign :: "jsobj \<Rightarrow> string \<Rightarrow> jsval \<Rightarrow> jsobj" where
  "assign out k v = (if k = ''__proto__'' then out else AList.update k v out)"

section \<open>The remote fetcher\<close>

record response =
  ok :: bool
  status :: int
  statusText :: string
  text_body :: "string option"
  json_body :: "jsval option"

text \<open>
  What one call of \<^verbatim>\<open>fetch\<close> does: its promise rejects (no response), or it resolves
  with a response. \<^verbatim>\<open>text_body\<close> is \<open>None\<close> when \<^verbatim>\<open>res.text()\<close> rejects, \<^verbatim>\<open>json_body\<close> when
  \<^verbatim>\<open>res.json()\<close> does.
\<close>

datatype fetch_result = Rejects | Resolves response

datatype error =
    TypeError
  | NetworkError
  | SyntaxError
  | ApiError int string string

definition shouldRetry :: "int \<Rightarrow> bool" where
  "shouldRetry st =
     (if st = 429 then True
      else if st \<ge> 500 \<and> st \<le> 599 then True
      else False)"

definition maxAttempts :: nat where
  "maxAttempts = 6"

record fetched =
  outcome :: "error + jsval"
  slept :: "int list"
  calls :: nat

text \<open>
  The loop of \<^verbatim>\<open>figmaFetchJson\<close>. \<open>http k\<close> is what the \<open>k\<close>-th call of \<^verbatim>\<open>fetch\<close> of this
  invocation does, counting from 0, and \<open>random k\<close> the value of the \<open>k\<close>-th call of
  \<^verbatim>\<open>Math.random\<close>; the loop makes one call of \<^verbatim>\<open>fetch\<close> per iteration and one of
  \<^verbatim>\<open>Math.random\<close> per retry, so both indices are \<^verbatim>\<open>attempt\<close>. The result records the
  durations passed to \<^verbatim>\<open>sleep\<close>, in order, and the number of calls of \<^verbatim>\<open>fetch\<close>.
\<close>

function figmaFetchJson_loop ::
  "(nat \<Rightarrow> fetch_result) \<Rightarrow> (nat \<Rightarrow> real) \<Rightarrow> nat \<Rightarrow> int list \<Rightarrow> fetched" where
  "figmaFetchJson_loop http random attempt waits =
     (case http attempt of
        Rejects \<Rightarrow> \<lparr>outcome = Inl NetworkError, slept = waits, calls = attempt + 1\<rparr>
      | Resolves res \<Rightarrow>
          if ok res then
            \<lparr>outcome = (case json_body res of None \<Rightarrow> Inl SyntaxError | Some v \<Rightarrow> Inr v),
             slept = waits, calls = attempt + 1\<rparr>
          else
            let text = (case text_body res of None \<Rightarrow> [] | Some t \<Rightarrow> t) in
            if attempt < maxAttempts - 1 \<and> shouldRetry (status res) then
              let base = 500;
                  backoff = base * 2 ^ attempt;
                  jitter = \<lfloor>random attempt * 250\<rfloor>;
                  waitMs = backoff + jitter
              in figmaFetchJson_loop http random (attempt + 1) (waits @ [waitMs])
            else
              \<lparr>outcome = Inl (ApiError (status res) (statusText res) (take 2000 text)),
               slept = waits, calls = attempt + 1\<rparr>)"
  by pat_completeness auto
termination
  by (relation "measure (\<lambda>(http, random, attempt, waits). maxAttempts - 1 - attempt)") auto

declare figmaFetchJson_loop.simps [simp del]

definition figmaFetchJson :: "(nat \<Rightarrow> fetch_result) \<Rightarrow> (nat \<Rightarrow> real) \<Rightarrow> fetched" where
  "figmaFetchJson http random = figmaFetchJson_loop http random 0 []"

section \<open>The node normalizer\<close>

definition isVisibleNode :: "jsval \<Rightarrow> bool" where
  "isVisibleNode node = (js_get node ''visible'' \<noteq> JBool False)"

text \<open>
  \<^verbatim>\<open>pick\<close> tests \<^verbatim>\<open>k in obj\<close>, which also sees inherited properties; it is called with
  \<^verbatim>\<open>knownKeys\<close> only, none of which \<^verbatim>\<open>Object.prototype\<close> defines.
\<close>

definition pick :: "jsobj \<Rightarrow> string list \<Rightarrow> jsobj" where
  "pick obj keys =
     foldl (\<lambda>out k. case map_of obj k of None \<Rightarrow> out | Some v \<Rightarrow> assign out k v) [] keys"

definition omit :: "jsobj \<Rightarrow> string list \<Rightarrow> jsobj" where
  "omit obj keysToOmit =
     foldl (\<lambda>out (k, v). if k \<in> set keysToOmit then out else assign out k v) []
       (own_entries (JObj obj))"

definition knownKeys :: "string list" where
  "knownKeys =
    [''id'', ''name'', ''type'', ''visible'', ''locked'', ''opacity'', ''blendMode'',
     ''isMask'', ''maskType'', ''clipsContent'', ''layoutMode'', ''layoutWrap'',
     ''primaryAxisSizingMode'', ''counterAxisSizingMode'', ''primaryAxisAlignItems'',
     ''counterAxisAlignItems'', ''primaryAxisAlignContent'', ''counterAxisAlignContent'',
     ''itemSpacing'', ''paddingTop'', ''paddingRight'', ''paddingBottom'', ''paddingLeft'',
     ''layoutPositioning'', ''constraints'', ''absoluteBoundingBox'',
     ''absoluteRenderBounds'', ''size'', ''relativeTransform'', ''rotation'',
     ''cornerRadius'', ''rectangleCornerRadii'', ''fills'', ''strokes'', ''strokeWeight'',
     ''strokeAlign'', ''strokeCap'', ''strokeJoin'', ''strokeDashes'', ''effects'',
     ''styles'', ''characters'', ''style'', ''characterStyleOverrides'',
     ''styleOverrideTable'', ''componentId'', ''componentProperties'',
     ''variantProperties'', ''documentationLinks'', ''reactions'', ''transitionNodeID'',
     ''prototypeStartNodeID'', ''exportSettings'']"

record normalized =
  node_id :: jsval
  node_name :: jsval
  node_type :: jsval
  childIds :: "jsval list"
  known :: jsobj
  other :: jsobj
  tw :: "string list"

text \<open>
  \<^verbatim>\<open>normalizeNode\<close>. The presentation hints \<^verbatim>\<open>inferTw(known)\<close> format floating-point
  numbers, and \<^verbatim>\<open>inferTw\<close> is the parameter \<open>infer\<close> here: a function of \<^verbatim>\<open>known\<close> that
  returns the hints or throws (\<^verbatim>\<open>hexFromColor\<close> multiplies the components of a colour,
  which is a \<^verbatim>\<open>TypeError\<close> on a component that is an object with no callable
  \<^verbatim>\<open>toString\<close>). The function throws in two more places, in this order before the call
  of \<^verbatim>\<open>inferTw\<close>: \<^verbatim>\<open>doc.children\<close> on a document that is \<^verbatim>\<open>null\<close>, and \<^verbatim>\<open>c.id\<close> on a
  \<^verbatim>\<open>null\<close> entry of \<^verbatim>\<open>children\<close>, which \<^verbatim>\<open>isVisibleNode\<close> lets through.
\<close>

definition normalizeNode ::
  "(jsobj \<Rightarrow> error + string list) \<Rightarrow> jsval \<Rightarrow> error + normalized" where
  "normalizeNode infer doc =
     (let raw = AList.delete ''vectorData'' (AList.delete ''vectorNetwork''
                  (AList.delete ''vectorPaths'' (own_entries doc)))
      in if nullish doc then Inl TypeError
         else
           let shown = (case js_get doc ''children'' of
                          JArr cs \<Rightarrow> filter isVisibleNode cs
                        | _ \<Rightarrow> [])
           in if \<exists>c \<in> set shown. nullish c then Inl TypeError
              else
                let ids = filter truthy (map (\<lambda>c. js_get c ''id'') shown);
                    kn = pick raw knownKeys;
                    ot = omit raw (knownKeys @ [''children''])
                in case infer kn of
                     Inl e \<Rightarrow> Inl e
                   | Inr hs \<Rightarrow>
                       Inr \<lparr>node_id = js_get doc ''id'', node_name = js_get doc ''name'',
                            node_type = js_get doc ''type'', childIds = ids,
                            known = kn, other = ot, tw = hs\<rparr>)"

section \<open>The bounded worker pool\<close>

text \<open>
  JavaScript runs one piece of code at a time, to completion: an \<^verbatim>\<open>async\<close> function
  runs until its first \<^verbatim>\<open>await\<close> on a pending promise, and goes on, in a later turn,
  when that promise settles. A unit of work \<^verbatim>\<open>fn(item)\<close> that awaits one external
  operation is therefore two atomic pieces: \<open>begin\<close>, up to the \<^verbatim>\<open>await\<close>, which yields a
  token for the pending operation; and \<open>finish\<close>, from the settling of that operation to
  the end of \<^verbatim>\<open>fn\<close>, which returns \<open>Some e\<close> when \<^verbatim>\<open>fn\<close> throws \<open>e\<close>. In which order
  the pending operations settle is up to the environment.

  A pool holds the items, the shared counter \<^verbatim>\<open>idx\<close>, the units in flight (one per
  worker that is waiting, with the index \<^verbatim>\<open>current\<close> of its item), and the state of the
  promise \<^verbatim>\<open>Promise.all(workers)\<close>, which rejects as soon as one worker rejects. The
  \<^verbatim>\<open>results\<close> array is left out: the crawler's callback returns nothing and the crawler
  ignores the array.
\<close>

record ('i, 't) pool =
  items :: "'i list"
  idx :: nat
  inflight :: "(nat \<times> 't) list"
  rejection :: "error option"

text \<open>
  \<^verbatim>\<open>worker\<close>, from its loop test to its next \<^verbatim>\<open>await\<close>: it takes the next item and begins
  the unit of work on it, or returns when no item is left.
\<close>

definition worker ::
  "('i \<Rightarrow> 's \<Rightarrow> 't \<times> 's) \<Rightarrow> ('i, 't) pool \<times> 's \<Rightarrow> ('i, 't) pool \<times> 's" where
  "worker begin ps =
     (let (p, s) = ps in
      if idx p < length (items p) then
        let current = idx p;
            (t, s') = begin (items p ! current) s
        in (p\<lparr>idx := current + 1, inflight := inflight p @ [(current, t)]\<rparr>, s')
      else (p, s))"

text \<open>\<^verbatim>\<open>mapLimit\<close> up to its \<^verbatim>\<open>await\<close>: the workers are started one after the other.\<close>

definition mapLimit ::
  "('i \<Rightarrow> 's \<Rightarrow> 't \<times> 's) \<Rightarrow> 'i list \<Rightarrow> nat \<Rightarrow> 's \<Rightarrow> ('i, 't) pool \<times> 's" where
  "mapLimit begin its limit s =
     (worker begin ^^ min limit (length its))
       (\<lparr>items = its, idx = 0, inflight = [], rejection = None\<rparr>, s)"

text \<open>
  The operation awaited by the unit at position \<open>pos\<close> of \<open>inflight\<close> settles. When the
  unit throws, its worker rejects, and \<^verbatim>\<open>Promise.all\<close> with it unless it has rejected
  before; the other workers are not told. Otherwise the worker goes round its loop.
\<close>

definition settle ::
  "('i \<Rightarrow> 's \<Rightarrow> 't \<times> 's) \<Rightarrow> ('i \<Rightarrow> 't \<Rightarrow> 's \<Rightarrow> error option \<times> 's) \<Rightarrow> nat \<Rightarrow>
   ('i, 't) pool \<times> 's \<Rightarrow> ('i, 't) pool \<times> 's" where
  "settle begin finish pos ps =
     (let (p, s) = ps;
          (current, t) = inflight p ! pos;
          p' = p\<lparr>inflight := take pos (inflight p) @ drop (Suc pos) (inflight p)\<rparr>
      in case finish (items p ! current) t s of
           (Some e, s') \<Rightarrow>
             (p'\<lparr>rejection := (case rejection p of None \<Rightarrow> Some e | Some e0 \<Rightarrow> Some e0)\<rparr>, s')
         | (None, s') \<Rightarrow> worker begin (p', s'))"

section \<open>The frontier crawler\<close>

text \<open>
  The variables of \<^verbatim>\<open>crawlSubtree\<close>. \<^verbatim>\<open>nodeMap\<close> is a \<^verbatim>\<open>Map\<close> (its entries in insertion
  order), \<^verbatim>\<open>queued\<close> a \<^verbatim>\<open>Set\<close> (its elements in insertion order). \<open>requests\<close> is not a
  variable of the function: it is what a recording fetcher sees, the \<^verbatim>\<open>ids\<close> of every
  call of \<^verbatim>\<open>fetchNodes\<close> in call order.
\<close>

record crawl_state =
  nodeMap :: "(jsval \<times> normalized) list"
  toExpand :: "jsval list"
  queued :: "jsval list"
  fetchedCount :: nat
  requestCount :: nat
  requests :: "jsval list list"

definition enqueue :: "jsval \<Rightarrow> crawl_state \<Rightarrow> crawl_state" where
  "enqueue i s =
     (if \<not> truthy i then s
      else if i \<in> fst ` set (nodeMap s) then s
      else if i \<in> set (queued s) then s
      else s\<lparr>queued := queued s @ [i], toExpand := toExpand s @ [i]\<rparr>)"

text \<open>
  The environment of one crawl: \<open>server r ids k\<close> is what the \<open>k\<close>-th call of \<^verbatim>\<open>fetch\<close> does
  within the \<open>r\<close>-th call of \<^verbatim>\<open>fetchNodes\<close> (the one that made \<^verbatim>\<open>requestCount\<close> equal to
  \<open>r\<close>), which asks for \<open>ids\<close>; \<open>jitter r k\<close> is what the \<open>k\<close>-th call of \<^verbatim>\<open>Math.random\<close> returns within it;
  \<open>schedule t\<close> chooses which of the pending requests is the \<open>t\<close>-th to settle; \<open>hints\<close> is
  \<^verbatim>\<open>inferTw\<close>.
\<close>

record env =
  server :: "nat \<Rightarrow> jsval list \<Rightarrow> nat \<Rightarrow> fetch_result"
  jitter :: "nat \<Rightarrow> nat \<Rightarrow> real"
  schedule :: "nat \<Rightarrow> nat"
  hints :: "jsobj \<Rightarrow> error + string list"

definition fetchNodes :: "env \<Rightarrow> nat \<Rightarrow> jsval list \<Rightarrow> error + jsval" where
  "fetchNodes e r ids = outcome (figmaFetchJson (server e r ids) (jitter e r))"

text \<open>\<^verbatim>\<open>data?.nodes || {}\<close>\<close>

definition nodes_of :: "jsval \<Rightarrow> jsval" where
  "nodes_of data =
     (let n = (if nullish data then JUndefined else js_get data ''nodes'')
      in if truthy n then n else JObj [])"

text \<open>One round of the loop \<^verbatim>\<open>for (const id of ids)\<close> of the callback.\<close>

definition visit ::
  "(jsobj \<Rightarrow> error + string list) \<Rightarrow> jsval \<Rightarrow> jsval \<Rightarrow> crawl_state \<Rightarrow> error option \<times> crawl_state" where
  "visit infer nodes i s =
     (let entry = js_get nodes (to_string i) in
      if \<not> truthy entry \<or> \<not> truthy (js_get entry ''document'') then (None, s)
      else
        let doc = js_get entry ''document'' in
        if \<not> isVisibleNode doc then (None, s)
        else
          case normalizeNode infer doc of
            Inl e \<Rightarrow> (Some e, s)
          | Inr nd \<Rightarrow>
              (None,
               foldl (\<lambda>s' childId. enqueue childId s')
                 (s\<lparr>nodeMap := AList.update (node_id nd) nd (nodeMap s),
                    fetchedCount := fetchedCount s + 1\<rparr>)
                 (childIds nd)))"

fun visit_all ::
  "(jsobj \<Rightarrow> error + string list) \<Rightarrow> jsval \<Rightarrow> jsval list \<Rightarrow> crawl_state \<Rightarrow> error option \<times> crawl_state"
  where
  "visit_all infer nodes [] s = (None, s)"
| "visit_all infer nodes (i # ids) s =
     (case visit infer nodes i s of
        (Some e, s') \<Rightarrow> (Some e, s')
      | (None, s') \<Rightarrow> visit_all infer nodes ids s')"

text \<open>
  The callback given to \<^verbatim>\<open>mapLimit\<close>, in its two pieces: up to \<^verbatim>\<open>await fetchNodes(...)\<close>,
  where the token is the number of the request; and from the settling of the request on.
\<close>

definition request :: "jsval list \<Rightarrow> crawl_state \<Rightarrow> nat \<times> crawl_state" where
  "request ids s =
     (requestCount s + 1,
      s\<lparr>requestCount := requestCount s + 1, requests := requests s @ [ids]\<rparr>)"

definition respond ::
  "env \<Rightarrow> jsval list \<Rightarrow> nat \<Rightarrow> crawl_state \<Rightarrow> error option \<times> crawl_state" where
  "respond e ids r s =
     (case fetchNodes e r ids of
        Inl err \<Rightarrow> (Some err, s)
      | Inr data \<Rightarrow> visit_all (hints e) (nodes_of data) ids s)"

text \<open>
  Where the control of \<^verbatim>\<open>crawlSubtree\<close> is: at the test of the outer loop; at the test of
  the loop that pre-splits the queue, with the batches formed so far; at
  \<^verbatim>\<open>await mapLimit(...)\<close>; or past \<^verbatim>\<open>return { nodeMap }\<close>. When the pool rejects,
  \<^verbatim>\<open>crawlSubtree\<close> rejects with it and its loop is over, but the requests still in
  flight settle later and their callbacks still run: the control stays \<open>Awaiting\<close>.
\<close>

datatype control =
    Outer
  | Presplit "jsval list list"
  | Awaiting "(jsval list, nat) pool"
  | Finished

record config =
  state :: crawl_state
  control :: control
  clock :: nat

text \<open>The promise that \<^verbatim>\<open>crawlSubtree\<close> returned.\<close>

datatype result = Pending | Returned | Threw error

definition result :: "config \<Rightarrow> result" where
  "result c =
     (case control c of
        Finished \<Rightarrow> Returned
      | Awaiting p \<Rightarrow> (case rejection p of Some e \<Rightarrow> Threw e | None \<Rightarrow> Pending)
      | _ \<Rightarrow> Pending)"

definition step :: "env \<Rightarrow> nat \<Rightarrow> nat \<Rightarrow> config \<Rightarrow> config" where
  "step e batchSize concurrency c =
     (let s = state c in
      case control c of
        Outer \<Rightarrow>
          if toExpand s = [] then c\<lparr>control := Finished\<rparr>
          else c\<lparr>state := s\<lparr>toExpand := drop batchSize (toExpand s)\<rparr>,
                 control := Presplit [take batchSize (toExpand s)]\<rparr>
      | Presplit batches \<Rightarrow>
          if toExpand s \<noteq> [] \<and> length batches < concurrency then
            let b = take batchSize (toExpand s)
            in c\<lparr>state := s\<lparr>toExpand := drop batchSize (toExpand s)\<rparr>,
                  control := Presplit (if b \<noteq> [] then batches @ [b] else batches)\<rparr>
          else
            let (p, s') = mapLimit request batches concurrency s
            in c\<lparr>state := s', control := Awaiting p\<rparr>
      | Awaiting p \<Rightarrow>
          if inflight p = [] then
            (case rejection p of None \<Rightarrow> c\<lparr>control := Outer\<rparr> | Some err \<Rightarrow> c)
          else
            let pos = schedule e (clock c) mod length (inflight p);
                (p', s') = settle request (respond e) pos (p, s)
            in c\<lparr>state := s', control := Awaiting p', clock := clock c + 1\<rparr>
      | Finished \<Rightarrow> c)"

definition init :: "jsval \<Rightarrow> config" where
  "init rootId =
     \<lparr>state = enqueue rootId
        \<lparr>nodeMap = [], toExpand = [], queued = [], fetchedCount = 0, requestCount = 0,
         requests = []\<rparr>,
      control = Outer, clock = 0\<rparr>"

text \<open>The crawl after \<open>n\<close> steps.\<close>

definition crawlSubtree :: "env \<Rightarrow> jsval \<Rightarrow> nat \<Rightarrow> nat \<Rightarrow> nat \<Rightarrow> config" where
  "crawlSubtree e rootId batchSize concurrency n =
     (step e batchSize concurrency ^^ n) (init rootId)"

section \<open>Auxiliary notions and example environments\<close>

text \<open>The duration of the \<open>k\<close>-th backoff sleep of one call of \<^verbatim>\<open>figmaFetchJson\<close>.\<close>

definition waitMs :: "(nat \<Rightarrow> real) \<Rightarrow> nat \<Rightarrow> int" where
  "waitMs random k = 500 * 2 ^ k + \<lfloor>random k * 250\<rfloor>"

text \<open>A call of \<^verbatim>\<open>fetch\<close> that yields a failed response with a status that is retried.\<close>

definition retryable_failure :: "fetch_result \<Rightarrow> bool" where
  "retryable_failure r =
     (case r of Rejects \<Rightarrow> False | Resolves res \<Rightarrow> \<not> ok res \<and> shouldRetry (status res))"

text \<open>A response with a given status, as a server sends it.\<close>

definition resp :: "int \<Rightarrow> response" where
  "resp st =
     \<lparr>ok = (200 \<le> st \<and> st \<le> 299), status = st, statusText = [],
      text_body = Some ''body'', json_body = Some (JObj [])\<rparr>"

text \<open>A server that answers 429 three times and then succeeds.\<close>

definition http_429x3 :: "nat \<Rightarrow> fetch_result" where
  "http_429x3 k = Resolves (resp (if k < 3 then 429 else 200))"

text \<open>The entries of \<^verbatim>\<open>doc.children\<close> when that is an array, none otherwise.\<close>

definition children_of :: "jsval \<Rightarrow> jsval list" where
  "children_of doc = (case js_get doc ''children'' of JArr cs \<Rightarrow> cs | _ \<Rightarrow> [])"

text \<open>A document with an attribute named \<^verbatim>\<open>__proto__\<close>, as \<^verbatim>\<open>JSON.parse\<close> yields it.\<close>

definition proto_doc :: jsval where
  "proto_doc =
     JObj [(''id'', JStr ''1:2''), (''__proto__'', JObj [(''x'', JNum ''1'')]),
           (''note'', JStr ''n'')]"

text \<open>
  A document that lists the child \<^verbatim>\<open>1:1\<close> twice and, between the two, a child whose
  \<^verbatim>\<open>id\<close> is the empty string; none of the three is marked invisible.
\<close>

definition twins_doc :: jsval where
  "twins_doc =
     JObj [(''id'', JStr ''0:1''),
           (''children'', JArr [JObj [(''id'', JStr ''1:1'')], JObj [(''id'', JStr [])],
                               JObj [(''id'', JStr ''1:1'')]])]"

text \<open>The keys of a \<^verbatim>\<open>Map\<close>.\<close>

definition keys_of :: "('a \<times> 'b) list \<Rightarrow> 'a set" where
  "keys_of m = fst ` set m"

text \<open>
  The document that the callback reads for an identifier: \<^verbatim>\<open>nodes[id].document\<close>, in the
  \<^verbatim>\<open>nodes\<close> of a response and in a response.
\<close>

definition doc_at :: "jsval \<Rightarrow> jsval \<Rightarrow> jsval" where
  "doc_at nodes i = js_get (js_get nodes (to_string i)) ''document''"

definition document_of :: "jsval \<Rightarrow> jsval \<Rightarrow> jsval" where
  "document_of data i = doc_at (nodes_of data) i"

text \<open>
  The identifiers taken from the queue and not yet passed to \<^verbatim>\<open>fetchNodes\<close>, and the
  requests in flight.
\<close>

definition pending :: "control \<Rightarrow> jsval list" where
  "pending ctl =
     (case ctl of
        Presplit batches \<Rightarrow> concat batches
      | Awaiting p \<Rightarrow> concat (drop (idx p) (items p))
      | _ \<Rightarrow> [])"

definition in_flight :: "control \<Rightarrow> (nat \<times> nat) list" where
  "in_flight ctl = (case ctl of Awaiting p \<Rightarrow> inflight p | _ \<Rightarrow> [])"


text \<open>
  \<open>answered e reqs p doc\<close>: some request of the log \<open>reqs\<close> asked for \<open>p\<close>, the fetcher
  answered it, and \<open>doc\<close> is the document of the answer for \<open>p\<close>. The \<open>r\<close>-th entry of the
  log, counting from 0, is the request that made \<^verbatim>\<open>requestCount\<close> equal to \<open>r + 1\<close>.
\<close>

definition answered :: "env \<Rightarrow> jsval list list \<Rightarrow> jsval \<Rightarrow> jsval \<Rightarrow> bool" where
  "answered e reqs p doc =
     (\<exists>r < length reqs. p \<in> set (reqs ! r) \<and>
        (\<exists>data. fetchNodes e (Suc r) (reqs ! r) = Inr data \<and> doc = document_of data p))"

text \<open>
  \<open>shows_child doc c\<close>: the document \<open>doc\<close> is there and not invisible, and lists, in an
  entry of \<^verbatim>\<open>children\<close> that is not invisible, the identifier \<open>c\<close>.
\<close>

definition shows_child :: "jsval \<Rightarrow> jsval \<Rightarrow> bool" where
  "shows_child doc c =
     (truthy doc \<and> isVisibleNode doc \<and>
      (\<exists>stub \<in> set (children_of doc). isVisibleNode stub \<and> js_get stub ''id'' = c))"

definition visible_link :: "env \<Rightarrow> jsval list list \<Rightarrow> (jsval \<times> jsval) set" where
  "visible_link e reqs = {(p, c). \<exists>doc. answered e reqs p doc \<and> shows_child doc c}"

text \<open>
  A remote file is a table of documents by identifier. The server answers a request for
  \<open>ids\<close> with the entry of each identifier (\<^verbatim>\<open>null\<close> for one that the file does not
  have), or with status 404 when the request is one of those that \<open>broken\<close> marks.
\<close>

definition reply :: "(string \<times> jsval) list \<Rightarrow> jsval list \<Rightarrow> jsval" where
  "reply docs ids =
     JObj [(''nodes'',
       JObj (map (\<lambda>i. (to_string i,
                     case map_of docs (to_string i) of
                       Some d \<Rightarrow> JObj [(''document'', d)]
                     | None \<Rightarrow> JNull)) ids))]"

definition file_env ::
  "(string \<times> jsval) list \<Rightarrow> (jsval list \<Rightarrow> bool) \<Rightarrow> (nat \<Rightarrow> nat) \<Rightarrow> env" where
  "file_env docs broken sched =
     \<lparr>server = (\<lambda>r ids k.
         if broken ids then Resolves (resp 404)
         else Resolves \<lparr>ok = True, status = 200, statusText = ''OK'', text_body = None,
                        json_body = Some (reply docs ids)\<rparr>),
      jitter = (\<lambda>r k. 0), schedule = sched, hints = (\<lambda>kn. Inr [])\<rparr>"

text \<open>
  The tree of the end-to-end scenario: the root \<^verbatim>\<open>0:1\<close> has the children A (\<^verbatim>\<open>1:1\<close>,
  visible) and B (\<^verbatim>\<open>1:2\<close>, invisible), and B has the child C (\<^verbatim>\<open>2:1\<close>). In this file the
  document of the root lists its children with their visibility, so that the entry for B
  says that B is invisible.
\<close>

definition doc_root :: jsval where
  "doc_root =
     JObj [(''id'', JStr ''0:1''), (''name'', JStr ''root''),
           (''children'', JArr [JObj [(''id'', JStr ''1:1''), (''name'', JStr ''A'')],
                               JObj [(''id'', JStr ''1:2''), (''name'', JStr ''B''),
                                     (''visible'', JBool False)]])]"

definition doc_A :: jsval where
  "doc_A = JObj [(''id'', JStr ''1:1''), (''name'', JStr ''A'')]"

definition doc_B :: jsval where
  "doc_B =
     JObj [(''id'', JStr ''1:2''), (''name'', JStr ''B''), (''visible'', JBool False),
           (''children'', JArr [JObj [(''id'', JStr ''2:1''), (''name'', JStr ''C'')]])]"

definition doc_C :: jsval where
  "doc_C = JObj [(''id'', JStr ''2:1''), (''name'', JStr ''C'')]"

definition tree_docs :: "(string \<times> jsval) list" where
  "tree_docs = [(''0:1'', doc_root), (''1:1'', doc_A), (''1:2'', doc_B), (''2:1'', doc_C)]"

definition tree_env :: "(nat \<Rightarrow> nat) \<Rightarrow> env" where
  "tree_env sched = file_env tree_docs (\<lambda>ids. False) sched"

text \<open>
  The same tree in a file where the root lists B without a visibility flag, so that B is
  found invisible only when its own document arrives: B is requested, with A.
\<close>

definition doc_plain :: jsval where
  "doc_plain =
     JObj [(''id'', JStr ''0:1''), (''name'', JStr ''root''),
           (''children'', JArr [JObj [(''id'', JStr ''1:1''), (''name'', JStr ''A'')],
                               JObj [(''id'', JStr ''1:2''), (''name'', JStr ''B'')]])]"

definition plain_docs :: "(string \<times> jsval) list" where
  "plain_docs = [(''0:1'', doc_plain), (''1:1'', doc_A), (''1:2'', doc_B), (''2:1'', doc_C)]"

definition plain_env :: "(nat \<Rightarrow> nat) \<Rightarrow> env" where
  "plain_env sched = file_env plain_docs (\<lambda>ids. False) sched"

text \<open>The same root in a file that has lost the document of A.\<close>

definition lost_env :: env where
  "lost_env = file_env [(''0:1'', doc_root)] (\<lambda>ids. False) (\<lambda>t. 0)"

text \<open>
  A root with two visible children, A and D (\<^verbatim>\<open>1:3\<close>), on a server that fails the request
  for A alone with status 404.
\<close>

definition doc_pair :: jsval where
  "doc_pair =
     JObj [(''id'', JStr ''0:1''), (''name'', JStr ''root''),
           (''children'', JArr [JObj [(''id'', JStr ''1:1''), (''name'', JStr ''A'')],
                               JObj [(''id'', JStr ''1:3''), (''name'', JStr ''D'')]])]"

definition doc_D :: jsval where
  "doc_D = JObj [(''id'', JStr ''1:3''), (''name'', JStr ''D'')]"


text \<open>A file that answers the request for \<^verbatim>\<open>0:1\<close> with a document whose id is \<^verbatim>\<open>1:1\<close>.\<close>

definition alias_env :: env where
  "alias_env = file_env [(''0:1'', doc_A)] (\<lambda>ids. False) (\<lambda>t. 0)"

text \<open>What \<^verbatim>\<open>normalizeNode\<close> makes of these documents.\<close>

definition node_root :: normalized where
  "node_root =
     \<lparr>node_id = JStr ''0:1'', node_name = JStr ''root'', node_type = JUndefined,
      childIds = [JStr ''1:1''],
      known = [(''id'', JStr ''0:1''), (''name'', JStr ''root'')], other = [], tw = []\<rparr>"

definition node_plain :: normalized where
  "node_plain =
     \<lparr>node_id = JStr ''0:1'', node_name = JStr ''root'', node_type = JUndefined,
      childIds = [JStr ''1:1'', JStr ''1:2''],
      known = [(''id'', JStr ''0:1''), (''name'', JStr ''root'')], other = [], tw = []\<rparr>"

definition node_A :: normalized where
  "node_A =
     \<lparr>node_id = JStr ''1:1'', node_name = JStr ''A'', node_type = JUndefined, childIds = [],
      known = [(''id'', JStr ''1:1''), (''name'', JStr ''A'')], other = [], tw = []\<rparr>"



text \<open>The state of a crawl from the root \<^verbatim>\<open>0:1\<close> once the first request is made.\<close>

definition s0 :: crawl_state where
  "s0 = \<lparr>nodeMap = [], toExpand = [], queued = [JStr ''0:1''], fetchedCount = 0,
         requestCount = 1, requests = [[JStr ''0:1'']]\<rparr>"

section \<open>Invariants of the crawl\<close>

text \<open>An identifier that \<^verbatim>\<open>enqueue\<close> takes.\<close>

definition fresh :: "jsval \<Rightarrow> crawl_state \<Rightarrow> bool" where
  "fresh i s = (truthy i \<and> i \<notin> keys_of (nodeMap s) \<and> i \<notin> set (queued s))"

text \<open>
  How a piece of the callback may change the state: it leaves the log of requests alone,
  appends the same new identifiers, none of them queued before and none twice, to
  \<^verbatim>\<open>queued\<close> and \<^verbatim>\<open>toExpand\<close>, and removes no key of \<^verbatim>\<open>nodeMap\<close>.
\<close>

definition grows :: "crawl_state \<Rightarrow> crawl_state \<Rightarrow> bool" where
  "grows s s' =
     (requests s' = requests s \<and> requestCount s' = requestCount s \<and>
      keys_of (nodeMap s) \<subseteq> keys_of (nodeMap s') \<and>
      (\<exists>new. queued s' = queued s @ new \<and> toExpand s' = toExpand s @ new \<and>
             distinct new \<and> set new \<inter> set (queued s) = {}))"

text \<open>\<open>nd\<close> is what the callback stores for the document \<open>doc\<close>.\<close>

definition stored :: "(jsobj \<Rightarrow> error + string list) \<Rightarrow> jsval \<Rightarrow> normalized \<Rightarrow> bool" where
  "stored infer doc nd = (truthy doc \<and> isVisibleNode doc \<and> normalizeNode infer doc = Inr nd)"

text \<open>Every entry of \<^verbatim>\<open>nodeMap\<close> is under the \<^verbatim>\<open>id\<close> of its node.\<close>

definition keyed :: "crawl_state \<Rightarrow> bool" where
  "keyed s = (\<forall>(k, nd) \<in> set (nodeMap s). k = node_id nd)"

text \<open>Every child of a stored node is a key of \<^verbatim>\<open>nodeMap\<close> or has been queued.\<close>

definition tracked :: "crawl_state \<Rightarrow> bool" where
  "tracked s =
     (\<forall>(k, nd) \<in> set (nodeMap s). \<forall>c \<in> set (childIds nd).
        c \<in> keys_of (nodeMap s) \<or> c \<in> set (queued s))"

text \<open>
  No identifier is in two places, or twice in one, among the requests made, the
  identifiers taken from the queue for a request to come, and the queue; each of them was
  queued; and none was queued twice.
\<close>

definition accounted :: "config \<Rightarrow> bool" where
  "accounted c =
     (distinct (concat (requests (state c)) @ pending (control c) @ toExpand (state c)) \<and>
      set (concat (requests (state c)) @ pending (control c) @ toExpand (state c)) \<subseteq>
        set (queued (state c)) \<and>
      distinct (queued (state c)))"

text \<open>
  Every identifier queued is in one of these places, and a pool with an item not yet begun
  has a unit in flight or has rejected.
\<close>

definition covered :: "config \<Rightarrow> bool" where
  "covered c =
     (set (queued (state c)) \<subseteq>
        set (concat (requests (state c)) @ pending (control c) @ toExpand (state c)) \<and>
      (case control c of
         Awaiting p \<Rightarrow> idx p < length (items p) \<longrightarrow> rejection p \<noteq> None \<or> inflight p \<noteq> []
       | _ \<Rightarrow> True))"

text \<open>
  The unit \<open>(current, r)\<close> in flight waits for the request that made \<^verbatim>\<open>requestCount\<close>
  equal to \<open>r\<close>, which is in the log and asked for the identifiers of the unit's item.
\<close>

definition waits_for :: "jsval list list \<Rightarrow> jsval list list \<Rightarrow> nat \<times> nat \<Rightarrow> bool" where
  "waits_for reqs its u =
     (fst u < length its \<and> 1 \<le> snd u \<and> snd u \<le> length reqs \<and>
      reqs ! (snd u - 1) = its ! fst u)"

text \<open>
  \<^verbatim>\<open>requestCount\<close> counts the log, every unit in flight waits for a request of the log,
  and the crawl returns with an empty queue.
\<close>

definition logged :: "config \<Rightarrow> bool" where
  "logged c =
     (requestCount (state c) = length (requests (state c)) \<and>
      (case control c of
         Awaiting p \<Rightarrow>
           idx p \<le> length (items p) \<and>
           (\<forall>u \<in> set (inflight p). waits_for (requests (state c)) (items p) u)
       | Finished \<Rightarrow> toExpand (state c) = []
       | _ \<Rightarrow> True))"

text \<open>
  The request at position \<open>r\<close> of the log was answered and the callback went through its
  identifiers: each one whose document is there and not invisible has that document's
  \<^verbatim>\<open>id\<close> as a key of \<^verbatim>\<open>nodeMap\<close>.
\<close>

definition processed :: "env \<Rightarrow> crawl_state \<Rightarrow> nat \<Rightarrow> bool" where
  "processed e s r =
     (\<exists>data. fetchNodes e (Suc r) (requests s ! r) = Inr data \<and>
        (\<forall>i \<in> set (requests s ! r).
           truthy (document_of data i) \<longrightarrow> isVisibleNode (document_of data i) \<longrightarrow>
           js_get (document_of data i) ''id'' \<in> keys_of (nodeMap s)))"

definition failed :: "config \<Rightarrow> bool" where
  "failed c = (\<exists>err. result c = Threw err)"

definition settled_ok :: "env \<Rightarrow> config \<Rightarrow> bool" where
  "settled_ok e c =
     (failed c \<or>
      (\<forall>r < length (requests (state c)).
         Suc r \<notin> snd ` set (in_flight (control c)) \<longrightarrow> processed e (state c) r))"

text \<open>Every stored node is the normal form of a document that the fetcher returned.\<close>

definition sourced :: "env \<Rightarrow> crawl_state \<Rightarrow> bool" where
  "sourced e s =
     (\<forall>(k, nd) \<in> set (nodeMap s).
        \<exists>p doc. answered e (requests s) p doc \<and> stored (hints e) doc nd)"

text \<open>Every identifier queued is reached from the root through visible links.\<close>

definition reached :: "env \<Rightarrow> jsval \<Rightarrow> crawl_state \<Rightarrow> bool" where
  "reached e rootId s =
     (\<forall>i \<in> set (queued s). (rootId, i) \<in> (visible_link e (requests s))\<^sup>*)"

section \<open>Properties of the fetcher\<close>

lemma loop_calls_slept:
  "a < calls (figmaFetchJson_loop http random a w) \<and>
   calls (figmaFetchJson_loop http random a w) \<le> max maxAttempts (a + 1) \<and>
   slept (figmaFetchJson_loop http random a w) =
     w @ map (\<lambda>k. 500 * 2 ^ k + \<lfloor>random k * 250\<rfloor>) [a ..< calls (figmaFetchJson_loop http random a w) - 1]"
proof (induction http random a w rule: figmaFetchJson_loop.induct)
  case (1 http random attempt waits)
  show ?case
  proof (cases "http attempt")
    case Rejects
    then show ?thesis by (simp add: figmaFetchJson_loop.simps[of http random attempt waits])
  next
    case (Resolves res)
    show ?thesis
    proof (cases "\<not> ok res \<and> attempt < maxAttempts - 1 \<and> shouldRetry (status res)")
      case False
      with Resolves show ?thesis
        by (auto simp add: figmaFetchJson_loop.simps[of http random attempt waits] Let_def)
    next
      case True
      let ?w = "waits @ [500 * 2 ^ attempt + \<lfloor>random attempt * 250\<rfloor>]"
      have eq: "figmaFetchJson_loop http random attempt waits = figmaFetchJson_loop http random (attempt + 1) ?w"
        using True Resolves by (simp add: figmaFetchJson_loop.simps[of http random attempt waits] Let_def)
      have IH: "attempt + 1 < calls (figmaFetchJson_loop http random (attempt + 1) ?w) \<and>
   calls (figmaFetchJson_loop http random (attempt + 1) ?w) \<le> max maxAttempts (attempt + 1 + 1) \<and>
   slept (figmaFetchJson_loop http random (attempt + 1) ?w) =
     ?w @ map (\<lambda>k. 500 * 2 ^ k + \<lfloor>random k * 250\<rfloor>) [attempt + 1 ..< calls (figmaFetchJson_loop http random (attempt + 1) ?w) - 1]"
        using "1.IH"[OF Resolves _ refl _ refl refl refl refl] True by simp
      let ?c = "calls (figmaFetchJson_loop http random (attempt + 1) ?w)"
      have "attempt < ?c - 1" using IH by linarith
      then have "[attempt ..< ?c - 1] = attempt # [attempt + 1 ..< ?c - 1]"
        by (simp add: upt_conv_Cons)
      moreover have "max maxAttempts (attempt + 1 + 1) \<le> max maxAttempts (attempt + 1)"
        using True by (auto simp: max_def)
      ultimately show ?thesis unfolding eq using IH by auto
    qed
  qed
qed


lemma shouldRetry_iff: "shouldRetry st \<longleftrightarrow> st = 429 \<or> (500 \<le> st \<and> st \<le> 599)"
  by (simp add: shouldRetry_def)

lemma loop_retry:
  assumes "http a = Resolves res" "\<not> ok res" "shouldRetry (status res)" "a < maxAttempts - 1"
  shows "figmaFetchJson_loop http random a w =
         figmaFetchJson_loop http random (a + 1) (w @ [500 * 2 ^ a + \<lfloor>random a * 250\<rfloor>])"
  using assms by (simp add: figmaFetchJson_loop.simps[of http random a w] Let_def)

lemma loop_raise:
  assumes "http a = Resolves res" "\<not> ok res" "\<not> shouldRetry (status res) \<or> \<not> a < maxAttempts - 1"
  shows "figmaFetchJson_loop http random a w =
         \<lparr>outcome = Inl (ApiError (status res) (statusText res)
                     (take 2000 (case text_body res of None \<Rightarrow> [] | Some t \<Rightarrow> t))),
          slept = w, calls = a + 1\<rparr>"
  using assms by (auto simp add: figmaFetchJson_loop.simps[of http random a w] Let_def)

lemma loop_retries_upto:
  assumes "\<forall>j<k. retryable_failure (http (a + j))" "a + k \<le> maxAttempts - 1"
  shows "figmaFetchJson_loop http random a w =
         figmaFetchJson_loop http random (a + k)
           (w @ map (\<lambda>j. 500 * 2 ^ j + \<lfloor>random j * 250\<rfloor>) [a ..< a + k])"
  using assms
proof (induction k arbitrary: a w)
  case 0
  then show ?case by simp
next
  case (Suc k)
  from Suc.prems(1) have r0: "retryable_failure (http a)" by (metis add.right_neutral zero_less_Suc)
  then obtain res where res: "http a = Resolves res" "\<not> ok res" "shouldRetry (status res)"
    by (auto simp: retryable_failure_def split: fetch_result.splits)
  have step: "figmaFetchJson_loop http random a w =
         figmaFetchJson_loop http random (a + 1) (w @ [500 * 2 ^ a + \<lfloor>random a * 250\<rfloor>])"
    using loop_retry[of http a res random w] res Suc.prems(2) by simp
  have "\<forall>j<k. retryable_failure (http (a + 1 + j))"
    using Suc.prems(1) by (metis Suc_eq_plus1 Suc_less_eq add_Suc_right add_Suc_shift)
  from Suc.IH[OF this] Suc.prems(2)
  have "figmaFetchJson_loop http random (a + 1) (w @ [500 * 2 ^ a + \<lfloor>random a * 250\<rfloor>]) =
     figmaFetchJson_loop http random (a + 1 + k)
      ((w @ [500 * 2 ^ a + \<lfloor>random a * 250\<rfloor>]) @ map (\<lambda>j. 500 * 2 ^ j + \<lfloor>random j * 250\<rfloor>) [a + 1..<a + 1 + k])"
    by simp
  moreover have "[a ..< a + Suc k] = a # [a + 1 ..< a + 1 + k]"
    by (simp add: upt_conv_Cons del: upt_Suc)
  ultimately show ?case unfolding step by (simp del: upt_Suc)
qed


text \<open>
  Claim C4. The statuses retried are exactly 429 and 500 to 599. One call of
  \<^verbatim>\<open>figmaFetchJson\<close> calls \<^verbatim>\<open>fetch\<close> at most 6 times. When the first \<open>k\<close> calls gave
  failed responses with a retried status and call \<open>k\<close> gives a failed response \<open>res\<close>:
  if the status of \<open>res\<close> is retried and \<open>k\<close> is not the sixth call, a further call of
  \<^verbatim>\<open>fetch\<close> follows; otherwise the error for \<open>res\<close> is raised at once, after \<open>k + 1\<close> calls
  and the \<open>k\<close> sleeps that preceded. So a status that is not retried, met at the first
  call, raises with one call and no sleep, and a retried status raises only at the sixth.
\<close>

theorem C4_retry_policy:
  "(\<forall>st. shouldRetry st \<longleftrightarrow> st = 429 \<or> (500 \<le> st \<and> st \<le> 599)) \<and>
   calls (figmaFetchJson http random) \<le> 6 \<and>
   (\<forall>k res. (\<forall>j<k. retryable_failure (http j)) \<and> k < 6 \<and> http k = Resolves res \<and> \<not> ok res \<longrightarrow>
      (if shouldRetry (status res) \<and> k < 5
       then k + 1 < calls (figmaFetchJson http random)
       else figmaFetchJson http random =
            \<lparr>outcome = Inl (ApiError (status res) (statusText res)
                         (take 2000 (case text_body res of None \<Rightarrow> [] | Some t \<Rightarrow> t))),
             slept = map (waitMs random) [0 ..< k], calls = k + 1\<rparr>))"
proof (intro conjI allI impI)
  fix st show "shouldRetry st \<longleftrightarrow> st = 429 \<or> (500 \<le> st \<and> st \<le> 599)"
    by (simp add: shouldRetry_def)
next
  show "calls (figmaFetchJson http random) \<le> 6"
    using loop_calls_slept[of 0 http random "[]"] by (simp add: figmaFetchJson_def maxAttempts_def)
next
  fix k res
  assume a: "(\<forall>j<k. retryable_failure (http j)) \<and> k < 6 \<and> http k = Resolves res \<and> \<not> ok res"
  then have upto: "figmaFetchJson http random =
      figmaFetchJson_loop http random k (map (waitMs random) [0 ..< k])"
    using loop_retries_upto[of k http 0 random "[]"]
    by (simp add: figmaFetchJson_def maxAttempts_def waitMs_def[abs_def])
  show "if shouldRetry (status res) \<and> k < 5
       then k + 1 < calls (figmaFetchJson http random)
       else figmaFetchJson http random =
            \<lparr>outcome = Inl (ApiError (status res) (statusText res)
                         (take 2000 (case text_body res of None \<Rightarrow> [] | Some t \<Rightarrow> t))),
             slept = map (waitMs random) [0 ..< k], calls = k + 1\<rparr>"
  proof (cases "shouldRetry (status res) \<and> k < 5")
    case True
    then have "figmaFetchJson_loop http random k (map (waitMs random) [0 ..< k]) =
        figmaFetchJson_loop http random (k + 1)
          (map (waitMs random) [0 ..< k] @ [500 * 2 ^ k + \<lfloor>random k * 250\<rfloor>])"
      using loop_retry[of http k res random] a by (simp add: maxAttempts_def)
    moreover have "k + 1 < calls (figmaFetchJson_loop http random (k + 1)
          (map (waitMs random) [0 ..< k] @ [500 * 2 ^ k + \<lfloor>random k * 250\<rfloor>]))"
      using loop_calls_slept by blast
    ultimately show ?thesis using True upto by simp
  next
    case False
    then have "figmaFetchJson_loop http random k (map (waitMs random) [0 ..< k]) =
         \<lparr>outcome = Inl (ApiError (status res) (statusText res)
                     (take 2000 (case text_body res of None \<Rightarrow> [] | Some t \<Rightarrow> t))),
          slept = map (waitMs random) [0 ..< k], calls = k + 1\<rparr>"
      using loop_raise[of http k res random] a by (auto simp: maxAttempts_def)
    then show ?thesis using False upto by simp
  qed
qed

theorem C4_retry_policy_witness:
  "figmaFetchJson (\<lambda>k. Resolves (resp 404)) (\<lambda>k. 0) =
     \<lparr>outcome = Inl (ApiError 404 [] ''body''), slept = [], calls = 1\<rparr> \<and>
   figmaFetchJson (\<lambda>k. Resolves (resp 503)) (\<lambda>k. 0) =
     \<lparr>outcome = Inl (ApiError 503 [] ''body''), slept = [500, 1000, 2000, 4000, 8000], calls = 6\<rparr>"
proof -
  have r: "retryable_failure (Resolves (resp 503))"
    by (simp add: retryable_failure_def resp_def shouldRetry_def)
  have u: "[0..<5] = [0, 1, 2, 3, 4::nat]" by (simp add: upt_rec)
  have "figmaFetchJson (\<lambda>k. Resolves (resp 404)) (\<lambda>k. 0) =
     \<lparr>outcome = Inl (ApiError 404 [] ''body''), slept = [], calls = 1\<rparr>"
    using C4_retry_policy[of "\<lambda>k. Resolves (resp 404)" "\<lambda>k. 0", THEN conjunct2, THEN conjunct2,
        THEN spec, THEN spec, of 0 "resp 404"]
    by (simp add: resp_def shouldRetry_def)
  moreover have "figmaFetchJson (\<lambda>k. Resolves (resp 503)) (\<lambda>k. 0) =
     \<lparr>outcome = Inl (ApiError 503 [] ''body''), slept = [500, 1000, 2000, 4000, 8000], calls = 6\<rparr>"
    using C4_retry_policy[of "\<lambda>k. Resolves (resp 503)" "\<lambda>k. 0", THEN conjunct2, THEN conjunct2,
        THEN spec, THEN spec, of 5 "resp 503"] r
    by (simp add: waitMs_def u) (simp add: resp_def shouldRetry_def)
  ultimately show ?thesis by simp
qed

text \<open>
  Claim C5. When \<^verbatim>\<open>Math.random\<close> returns values in \<open>[0, 1)\<close>: one sleep precedes every
  call of \<^verbatim>\<open>fetch\<close> but the first, at most five in all; the \<open>k\<close>-th sleep, counting
  from 0, lasts \<open>500 * 2 ^ k\<close> plus a jitter that is at least 0 and less than 250, hence
  at least \<open>500 * 2 ^ k\<close>; and from one sleep to the next both the exponential component
  (the duration less its jitter) and the duration itself strictly increase.
\<close>

theorem C5_backoff:
  assumes "\<forall>k. 0 \<le> random k \<and> random k < 1"
  shows "length (slept (figmaFetchJson http random)) = calls (figmaFetchJson http random) - 1 \<and>
         length (slept (figmaFetchJson http random)) \<le> 5 \<and>
         (\<forall>k < length (slept (figmaFetchJson http random)).
            slept (figmaFetchJson http random) ! k = 500 * 2 ^ k + \<lfloor>random k * 250\<rfloor> \<and>
            0 \<le> \<lfloor>random k * 250\<rfloor> \<and> \<lfloor>random k * 250\<rfloor> < 250 \<and>
            500 * 2 ^ k \<le> slept (figmaFetchJson http random) ! k) \<and>
         (\<forall>k. Suc k < length (slept (figmaFetchJson http random)) \<longrightarrow>
            slept (figmaFetchJson http random) ! k - \<lfloor>random k * 250\<rfloor>
              < slept (figmaFetchJson http random) ! Suc k - \<lfloor>random (Suc k) * 250\<rfloor> \<and>
            slept (figmaFetchJson http random) ! k < slept (figmaFetchJson http random) ! Suc k)"
proof -
  let ?f = "figmaFetchJson http random"
  have c: "0 < calls ?f" "calls ?f \<le> 6"
    and s: "slept ?f = map (\<lambda>k. 500 * 2 ^ k + \<lfloor>random k * 250\<rfloor>) [0 ..< calls ?f - 1]"
    using loop_calls_slept[of 0 http random "[]"] by (simp_all add: figmaFetchJson_def maxAttempts_def)
  have len: "length (slept ?f) = calls ?f - 1" by (simp add: s)
  have j: "0 \<le> \<lfloor>random k * 250\<rfloor> \<and> \<lfloor>random k * 250\<rfloor> < 250" for k
  proof -
    have "0 \<le> random k * 250" "random k * 250 < 250" using assms by (simp_all)
    then show ?thesis by (simp add: floor_less_iff)
  qed
  have nth: "slept ?f ! k = 500 * 2 ^ k + \<lfloor>random k * 250\<rfloor>" if "k < length (slept ?f)" for k
    using that by (simp add: s)
  have mono: "slept ?f ! k < slept ?f ! Suc k" if "Suc k < length (slept ?f)" for k
  proof -
    have "slept ?f ! k < 500 * 2 ^ k + 250" using nth[of k] j[of k] that by simp
    also have "\<dots> \<le> 500 * 2 ^ Suc k"
    proof -
      have "(1::int) \<le> 2 ^ k" by simp
      then show ?thesis unfolding power_Suc by linarith
    qed
    also have "\<dots> \<le> slept ?f ! Suc k" using nth[OF that] j[of "Suc k"] by simp
    finally show ?thesis .
  qed
  show ?thesis using len c j nth mono by auto
qed

theorem C5_backoff_witness:
  "(\<forall>k::nat. (0::real) \<le> 1 / 2 \<and> (1::real) / 2 < 1) \<and>
   figmaFetchJson http_429x3 (\<lambda>k. 1 / 2) =
     \<lparr>outcome = Inr (JObj []), slept = [625, 1125, 2125], calls = 4\<rparr> \<and>
   slept (figmaFetchJson http_429x3 (\<lambda>k. 1 / 2)) ! 1 < slept (figmaFetchJson http_429x3 (\<lambda>k. 1 / 2)) ! 2"
proof -
  have h: "\<forall>k::nat. (0::real) \<le> 1 / 2 \<and> (1::real) / 2 < 1" by simp
  have e: "figmaFetchJson http_429x3 (\<lambda>k. 1 / 2) =
     \<lparr>outcome = Inr (JObj []), slept = [625, 1125, 2125], calls = 4\<rparr>"
    by (simp add: figmaFetchJson_def figmaFetchJson_loop.simps http_429x3_def resp_def
        shouldRetry_def maxAttempts_def Let_def)
  from C5_backoff[of "\<lambda>k. 1 / 2" http_429x3, OF h] e h show ?thesis by simp
qed

section \<open>Properties of the normalizer\<close>

lemma js_get_JObj [simp]:
  "js_get (JObj kvs) k = (case map_of kvs k of Some x \<Rightarrow> x | None \<Rightarrow> JUndefined)"
  by (simp add: js_get_def map_of_clearjunk)

lemma map_of_assign:
  "map_of (assign out k v) = (if k = ''__proto__'' then map_of out else (map_of out)(k \<mapsto> v))"
  by (simp add: assign_def update_conv')

lemma map_of_pick_gen:
  "map_of (foldl (\<lambda>out k. case map_of obj k of None \<Rightarrow> out | Some v \<Rightarrow> assign out k v) acc keys) k =
     (if k \<in> set keys \<and> k \<noteq> ''__proto__'' \<and> map_of obj k \<noteq> None then map_of obj k else map_of acc k)"
proof (induction keys arbitrary: acc)
  case Nil
  then show ?case by simp
next
  case (Cons a keys)
  show ?case
    by (cases "map_of obj a") (auto simp: Cons.IH map_of_assign)
qed

lemma map_of_pick:
  "map_of (pick obj keys) k =
     (if k \<in> set keys \<and> k \<noteq> ''__proto__'' then map_of obj k else None)"
  unfolding pick_def map_of_pick_gen by auto

lemma map_of_omit_gen:
  "distinct (map fst es) \<Longrightarrow>
   map_of (foldl (\<lambda>out (k, v). if k \<in> set ks then out else assign out k v) acc es) k =
     (if k \<notin> set ks \<and> k \<noteq> ''__proto__'' \<and> map_of es k \<noteq> None then map_of es k else map_of acc k)"
proof (induction es arbitrary: acc)
  case Nil
  then show ?case by simp
next
  case (Cons a es)
  obtain k0 v0 where a: "a = (k0, v0)" by (cases a)
  have d: "distinct (map fst es)" and n: "map_of es k0 = None"
    using Cons.prems by (auto simp: a map_of_eq_None_iff)
  show ?case
    using n by (auto simp: a Cons.IH[OF d] map_of_assign)
qed

lemma map_of_omit:
  "map_of (omit obj ks) k =
     (if k \<notin> set ks \<and> k \<noteq> ''__proto__'' then map_of obj k else None)"
  unfolding omit_def own_entries.simps
  by (subst map_of_omit_gen) (auto simp: distinct_clearjunk map_of_clearjunk)

lemma keys_eq_dom: "fst ` set xs = dom (map_of xs)"
  by (simp add: dom_map_of_conv_image_fst)

lemma map_of_delete3:
  "map_of (AList.delete a (AList.delete b (AList.delete c xs))) k =
     (if k = a \<or> k = b \<or> k = c then None else map_of xs k)"
  by (simp add: delete_conv')

lemma normalizeNode_cases:
  "normalizeNode infer doc =
     (if nullish doc \<or> (\<exists>c \<in> set (filter isVisibleNode (children_of doc)). nullish c)
      then Inl TypeError
      else case infer (pick (AList.delete ''vectorData'' (AList.delete ''vectorNetwork''
                          (AList.delete ''vectorPaths'' (own_entries doc)))) knownKeys) of
             Inl e \<Rightarrow> Inl e
           | Inr hs \<Rightarrow>
               Inr \<lparr>node_id = js_get doc ''id'', node_name = js_get doc ''name'',
                    node_type = js_get doc ''type'',
                    childIds = filter truthy (map (\<lambda>c. js_get c ''id'')
                                 (filter isVisibleNode (children_of doc))),
                    known = pick (AList.delete ''vectorData'' (AList.delete ''vectorNetwork''
                              (AList.delete ''vectorPaths'' (own_entries doc)))) knownKeys,
                    other = omit (AList.delete ''vectorData'' (AList.delete ''vectorNetwork''
                              (AList.delete ''vectorPaths'' (own_entries doc))))
                              (knownKeys @ [''children'']),
                    tw = hs\<rparr>)"
proof -
  have "(case js_get doc ''children'' of JArr cs \<Rightarrow> filter isVisibleNode cs | _ \<Rightarrow> []) =
        filter isVisibleNode (children_of doc)"
    by (simp add: children_of_def split: jsval.splits)
  then show ?thesis by (auto simp add: normalizeNode_def Let_def)
qed

lemma normalizeNode_Inr:
  assumes "normalizeNode infer doc = Inr nd"
  shows "node_id nd = js_get doc ''id''"
    and "childIds nd = filter truthy (map (\<lambda>c. js_get c ''id'')
                                 (filter isVisibleNode (children_of doc)))"
    and "known nd = pick (AList.delete ''vectorData'' (AList.delete ''vectorNetwork''
                              (AList.delete ''vectorPaths'' (own_entries doc)))) knownKeys"
    and "other nd = omit (AList.delete ''vectorData'' (AList.delete ''vectorNetwork''
                              (AList.delete ''vectorPaths'' (own_entries doc))))
                              (knownKeys @ [''children''])"
  using assms by (auto simp: normalizeNode_cases split: if_splits sum.splits)

lemma nullish_visible: "nullish c \<Longrightarrow> isVisibleNode c"
  by (auto simp: nullish_def isVisibleNode_def js_get_def)

lemma childIds_comprehension:
  "filter truthy (map (\<lambda>c. js_get c ''id'') (filter isVisibleNode cs)) =
   [js_get c ''id''. c \<leftarrow> cs, js_get c ''visible'' \<noteq> JBool False, truthy (js_get c ''id'')]"
  by (induction cs) (auto simp: isVisibleNode_def)

text \<open>
  What holds of \<^verbatim>\<open>known\<close> and \<^verbatim>\<open>other\<close> for every document: they share no key, neither
  has a geometry key, and together they have the keys of the document but \<^verbatim>\<open>children\<close>,
  the geometry keys and \<^verbatim>\<open>__proto__\<close>; each key keeps the value the document gives it.
\<close>

lemma normalizeNode_known_other:
  assumes "normalizeNode infer doc = Inr nd"
  shows "fst ` set (known nd) \<inter> fst ` set (other nd) = {}"
    and "fst ` set (known nd) \<union> fst ` set (other nd) =
         fst ` set (own_entries doc) -
           {''children'', ''vectorPaths'', ''vectorNetwork'', ''vectorData'', ''__proto__''}"
    and "map_of (known nd) k = Some v \<Longrightarrow> map_of (own_entries doc) k = Some v"
    and "map_of (other nd) k = Some v \<Longrightarrow> map_of (own_entries doc) k = Some v"
    and "map_of (known nd) ''visible'' = map_of (own_entries doc) ''visible''"
proof -
  let ?raw = "AList.delete ''vectorData'' (AList.delete ''vectorNetwork''
                (AList.delete ''vectorPaths'' (own_entries doc)))"
  have kn: "known nd = pick ?raw knownKeys" and ot: "other nd = omit ?raw (knownKeys @ [''children''])"
    using normalizeNode_Inr(3,4)[OF assms] by simp_all
  have geo: "''vectorData'' \<notin> set knownKeys" "''vectorNetwork'' \<notin> set knownKeys"
    "''vectorPaths'' \<notin> set knownKeys" "''children'' \<notin> set knownKeys"
    "''__proto__'' \<notin> set knownKeys" "''visible'' \<in> set knownKeys"
    by (simp_all add: knownKeys_def)
  have mk: "map_of (known nd) k = (if k \<in> set knownKeys then map_of (own_entries doc) k else None)" for k
    using geo by (auto simp: kn map_of_pick map_of_delete3)
  have mo: "map_of (other nd) k =
      (if k \<notin> set knownKeys \<and> k \<notin> {''children'', ''vectorPaths'', ''vectorNetwork'', ''vectorData'', ''__proto__''}
       then map_of (own_entries doc) k else None)" for k
    by (auto simp: ot map_of_omit map_of_delete3)
  show "fst ` set (known nd) \<inter> fst ` set (other nd) = {}"
    unfolding keys_eq_dom by (auto simp: dom_def mk mo)
  show "fst ` set (known nd) \<union> fst ` set (other nd) =
         fst ` set (own_entries doc) -
           {''children'', ''vectorPaths'', ''vectorNetwork'', ''vectorData'', ''__proto__''}"
    unfolding keys_eq_dom using geo by (auto simp: dom_def mk mo split: if_splits)
  show "map_of (known nd) k = Some v \<Longrightarrow> map_of (own_entries doc) k = Some v"
    by (simp add: mk split: if_splits)
  show "map_of (other nd) k = Some v \<Longrightarrow> map_of (own_entries doc) k = Some v"
    by (simp add: mo split: if_splits)
  show "map_of (known nd) ''visible'' = map_of (own_entries doc) ''visible''"
    using geo by (simp add: mk)
qed

text \<open>
  Claim C8, at the document \<open>proto_doc\<close>, whose attributes are \<^verbatim>\<open>id\<close>, \<^verbatim>\<open>__proto__\<close> and
  \<^verbatim>\<open>note\<close>: \<^verbatim>\<open>normalizeNode\<close> puts \<^verbatim>\<open>id\<close> in \<^verbatim>\<open>known\<close> and \<^verbatim>\<open>note\<close> in \<^verbatim>\<open>other\<close>, and the
  attribute \<^verbatim>\<open>__proto__\<close>, which is no geometry field, is in neither.
\<close>

theorem C8_proto_dropped:
  "normalizeNode (\<lambda>kn. Inr []) proto_doc =
     Inr \<lparr>node_id = JStr ''1:2'', node_name = JUndefined, node_type = JUndefined,
          childIds = [], known = [(''id'', JStr ''1:2'')], other = [(''note'', JStr ''n'')],
          tw = []\<rparr> \<and>
   map fst (own_entries proto_doc) = [''id'', ''__proto__'', ''note'']"
  by code_simp

lemma count_comprehension:
  "count_list [f c. c \<leftarrow> cs, P c, Q c] i = length (filter (\<lambda>c. P c \<and> Q c \<and> f c = i) cs)"
  by (induction cs) auto

lemma normalize_twins:
  "normalizeNode (\<lambda>kn. Inr []) twins_doc =
     Inr \<lparr>node_id = JStr ''0:1'', node_name = JUndefined, node_type = JUndefined,
          childIds = [JStr ''1:1'', JStr ''1:1''], known = [(''id'', JStr ''0:1'')],
          other = [], tw = []\<rparr>"
  by code_simp

lemma twins_children:
  "children_of twins_doc =
     [JObj [(''id'', JStr ''1:1'')], JObj [(''id'', JStr [])], JObj [(''id'', JStr ''1:1'')]]"
  by (simp add: children_of_def twins_doc_def)

text \<open>
  Claim C9, as stated, at the document \<open>twins_doc\<close>, whose \<^verbatim>\<open>children\<close> hold three entries
  not marked invisible, with the ids \<^verbatim>\<open>1:1\<close>, the empty string and \<^verbatim>\<open>1:1\<close>: the identifier
  \<^verbatim>\<open>1:1\<close> is twice in \<^verbatim>\<open>childIds\<close>, and \<^verbatim>\<open>childIds\<close> is not the list of the ids of these
  entries, for the empty one is missing.
\<close>

theorem C9_duplicates_kept:
  "\<exists>nd. normalizeNode (\<lambda>kn. Inr []) twins_doc = Inr nd \<and> \<not> distinct (childIds nd) \<and>
        childIds nd \<noteq>
          [js_get c ''id''. c \<leftarrow> children_of twins_doc, js_get c ''visible'' \<noteq> JBool False]"
  by (simp add: normalize_twins twins_children)

text \<open>
  Claim C9, amended. Whenever \<^verbatim>\<open>normalizeNode\<close> returns a node, its \<^verbatim>\<open>childIds\<close> is, in the
  order of \<^verbatim>\<open>children\<close>, the \<^verbatim>\<open>id\<close> of every entry whose \<^verbatim>\<open>visible\<close> is not \<^verbatim>\<open>false\<close> and
  whose \<^verbatim>\<open>id\<close> is truthy, and an identifier occurs in it once for every such entry that
  carries it.
\<close>

theorem C9_childIds:
  assumes "normalizeNode infer doc = Inr nd"
  shows "childIds nd =
           [js_get c ''id''. c \<leftarrow> children_of doc, js_get c ''visible'' \<noteq> JBool False,
              truthy (js_get c ''id'')] \<and>
         count_list (childIds nd) i =
           length (filter (\<lambda>c. js_get c ''visible'' \<noteq> JBool False \<and> truthy (js_get c ''id'') \<and>
                               js_get c ''id'' = i) (children_of doc))"
proof -
  have "childIds nd =
           [js_get c ''id''. c \<leftarrow> children_of doc, js_get c ''visible'' \<noteq> JBool False,
              truthy (js_get c ''id'')]"
    using normalizeNode_Inr(2)[OF assms] by (simp add: childIds_comprehension)
  then show ?thesis by (simp only: count_comprehension simp_thms)
qed

theorem C9_childIds_witness:
  "normalizeNode (\<lambda>kn. Inr []) twins_doc =
     Inr \<lparr>node_id = JStr ''0:1'', node_name = JUndefined, node_type = JUndefined,
          childIds = [JStr ''1:1'', JStr ''1:1''], known = [(''id'', JStr ''0:1'')],
          other = [], tw = []\<rparr> \<and>
   childIds \<lparr>node_id = JStr ''0:1'', node_name = JUndefined, node_type = JUndefined,
          childIds = [JStr ''1:1'', JStr ''1:1''], known = [(''id'', JStr ''0:1'')],
          other = [], tw = []\<rparr> =
     [js_get c ''id''. c \<leftarrow> children_of twins_doc, js_get c ''visible'' \<noteq> JBool False,
        truthy (js_get c ''id'')] \<and>
   count_list (childIds \<lparr>node_id = JStr ''0:1'', node_name = JUndefined, node_type = JUndefined,
          childIds = [JStr ''1:1'', JStr ''1:1''], known = [(''id'', JStr ''0:1'')],
          other = [], tw = []\<rparr>) (JStr ''1:1'') =
     length (filter (\<lambda>c. js_get c ''visible'' \<noteq> JBool False \<and> truthy (js_get c ''id'') \<and>
                         js_get c ''id'' = JStr ''1:1'') (children_of twins_doc))"
  by (rule conjI[OF normalize_twins C9_childIds[OF normalize_twins]])

subsection \<open>The queue\<close>

lemma enqueue_eq:
  "enqueue i s =
     (if fresh i s then s\<lparr>queued := queued s @ [i], toExpand := toExpand s @ [i]\<rparr> else s)"
  by (auto simp: enqueue_def fresh_def keys_of_def)

lemma grows_refl: "grows s s"
  by (simp add: grows_def)

lemma grows_trans:
  assumes "grows s s'" "grows s' s''"
  shows "grows s s''"
proof -
  from assms(1) obtain n1 where 1: "queued s' = queued s @ n1" "toExpand s' = toExpand s @ n1"
    "distinct n1" "set n1 \<inter> set (queued s) = {}" by (auto simp: grows_def)
  from assms(2) obtain n2 where 2: "queued s'' = queued s' @ n2" "toExpand s'' = toExpand s' @ n2"
    "distinct n2" "set n2 \<inter> set (queued s') = {}" by (auto simp: grows_def)
  have "queued s'' = queued s @ (n1 @ n2)" "toExpand s'' = toExpand s @ (n1 @ n2)"
    "distinct (n1 @ n2)" "set (n1 @ n2) \<inter> set (queued s) = {}"
    using 1 2 by auto
  then have "\<exists>new. queued s'' = queued s @ new \<and> toExpand s'' = toExpand s @ new \<and>
             distinct new \<and> set new \<inter> set (queued s) = {}" by blast
  then show ?thesis using assms by (auto simp: grows_def)
qed

lemma grows_enqueue: "grows s (enqueue i s)"
proof (cases "fresh i s")
  case True
  then have "queued (enqueue i s) = queued s @ [i]" "toExpand (enqueue i s) = toExpand s @ [i]"
    "distinct [i]" "set [i] \<inter> set (queued s) = {}"
    by (auto simp: enqueue_eq fresh_def)
  then have "\<exists>new. queued (enqueue i s) = queued s @ new \<and> toExpand (enqueue i s) = toExpand s @ new \<and>
             distinct new \<and> set new \<inter> set (queued s) = {}" by blast
  then show ?thesis using True by (simp add: grows_def enqueue_eq)
next
  case False
  then show ?thesis by (simp add: enqueue_eq grows_refl)
qed

lemma nodeMap_enqueue [simp]: "nodeMap (enqueue i s) = nodeMap s"
  by (simp add: enqueue_eq)

lemma fetchedCount_enqueue [simp]: "fetchedCount (enqueue i s) = fetchedCount s"
  by (simp add: enqueue_eq)

lemma nodeMap_enqueue_all [simp]:
  "nodeMap (foldl (\<lambda>s' c. enqueue c s') s cs) = nodeMap s"
  by (induction cs arbitrary: s) auto

lemma grows_enqueue_all: "grows s (foldl (\<lambda>s' c. enqueue c s') s cs)"
proof (induction cs arbitrary: s)
  case Nil
  then show ?case by (simp add: grows_refl)
next
  case (Cons c cs)
  show ?case using grows_trans[OF grows_enqueue Cons.IH] by simp
qed

lemma queued_enqueue: "set (queued (enqueue i s)) \<subseteq> insert i (set (queued s))"
  by (auto simp: enqueue_eq)

lemma queued_enqueue_all:
  "set (queued (foldl (\<lambda>s' c. enqueue c s') s cs)) \<subseteq> set (queued s) \<union> set cs"
proof (induction cs arbitrary: s)
  case Nil
  then show ?case by simp
next
  case (Cons c cs)
  show ?case using Cons.IH[of "enqueue c s"] queued_enqueue[of c s] by auto
qed

lemma enqueued_or_known:
  "truthy i \<Longrightarrow> i \<in> keys_of (nodeMap (enqueue i s)) \<or> i \<in> set (queued (enqueue i s))"
  by (auto simp: enqueue_eq fresh_def)

lemma enqueue_all_tracked:
  assumes "c \<in> set cs" "truthy c"
  shows "c \<in> keys_of (nodeMap s) \<or> c \<in> set (queued (foldl (\<lambda>s' c. enqueue c s') s cs))"
  using assms
proof (induction cs arbitrary: s)
  case Nil
  then show ?case by simp
next
  case (Cons a cs)
  have g: "grows (enqueue a s) (foldl (\<lambda>s' c. enqueue c s') (enqueue a s) cs)"
    by (rule grows_enqueue_all)
  show ?case
  proof (cases "c = a")
    case True
    then have "c \<in> keys_of (nodeMap s) \<or> c \<in> set (queued (enqueue a s))"
      using enqueued_or_known[of a s] Cons.prems by simp
    then show ?thesis using g by (auto simp: grows_def)
  next
    case False
    then show ?thesis using Cons.IH[of "enqueue a s"] Cons.prems by simp
  qed
qed

subsection \<open>One identifier of a batch\<close>

lemma falsy_get: "\<not> truthy v \<Longrightarrow> js_get v k = JUndefined"
  by (cases v) (auto simp: js_get_def)

lemma node_id_normalizeNode:
  "normalizeNode infer doc = Inr nd \<Longrightarrow> node_id nd = js_get doc ''id''"
  by (rule normalizeNode_Inr(1))

lemma childIds_truthy:
  "normalizeNode infer doc = Inr nd \<Longrightarrow> c \<in> set (childIds nd) \<Longrightarrow> truthy c"
  by (auto simp: normalizeNode_Inr(2))

lemma childIds_shown:
  assumes "normalizeNode infer doc = Inr nd" "c \<in> set (childIds nd)"
  shows "\<exists>stub \<in> set (children_of doc). isVisibleNode stub \<and> js_get stub ''id'' = c"
  using assms(2) by (auto simp: normalizeNode_Inr(2)[OF assms(1)])

lemma visit_cases:
  "visit infer nodes i s =
     (if \<not> truthy (doc_at nodes i) \<or> \<not> isVisibleNode (doc_at nodes i) then (None, s)
      else case normalizeNode infer (doc_at nodes i) of
             Inl e \<Rightarrow> (Some e, s)
           | Inr nd \<Rightarrow>
               (None,
                foldl (\<lambda>s' c. enqueue c s')
                  (s\<lparr>nodeMap := AList.update (node_id nd) nd (nodeMap s),
                     fetchedCount := fetchedCount s + 1\<rparr>)
                  (childIds nd)))"
proof (cases "truthy (js_get nodes (to_string i))")
  case True
  then show ?thesis by (simp add: visit_def doc_at_def Let_def)
next
  case False
  then have "doc_at nodes i = JUndefined" by (simp add: doc_at_def falsy_get)
  then show ?thesis using False by (simp add: visit_def Let_def)
qed

lemma set_update_subset: "set (AList.update k v al) \<subseteq> insert (k, v) (set al)"
  by (induction al) auto

lemma keys_of_update [simp]: "keys_of (AList.update k v al) = insert k (keys_of al)"
  unfolding keys_of_def by (induction al) auto

lemma visit_props:
  assumes v: "visit infer nodes i s = (err, s')"
  shows visit_grows: "grows s s'"
    and visit_keyed: "keyed s \<Longrightarrow> keyed s'"
    and visit_tracked: "tracked s \<Longrightarrow> tracked s'"
    and visit_nodes: "\<And>k nd. (k, nd) \<in> set (nodeMap s') \<Longrightarrow>
           (k, nd) \<in> set (nodeMap s) \<or> stored infer (doc_at nodes i) nd"
    and visit_queued: "\<And>c. c \<in> set (queued s') \<Longrightarrow>
           c \<in> set (queued s) \<or> shows_child (doc_at nodes i) c"
    and visit_done: "err = None \<Longrightarrow> truthy (doc_at nodes i) \<Longrightarrow> isVisibleNode (doc_at nodes i) \<Longrightarrow>
           js_get (doc_at nodes i) ''id'' \<in> keys_of (nodeMap s')"
proof -
  let ?doc = "doc_at nodes i"
  consider (skip) "\<not> truthy ?doc \<or> \<not> isVisibleNode ?doc" "s' = s" "err = None"
    | (throw) e where "truthy ?doc" "isVisibleNode ?doc" "normalizeNode infer ?doc = Inl e"
        "s' = s" "err = Some e"
    | (store) nd where "truthy ?doc" "isVisibleNode ?doc" "normalizeNode infer ?doc = Inr nd"
        "s' = foldl (\<lambda>s' c. enqueue c s')
                  (s\<lparr>nodeMap := AList.update (node_id nd) nd (nodeMap s),
                     fetchedCount := fetchedCount s + 1\<rparr>) (childIds nd)" "err = None"
    using v by (auto simp: visit_cases split: if_splits sum.splits)
  then have "grows s s' \<and> (keyed s \<longrightarrow> keyed s') \<and> (tracked s \<longrightarrow> tracked s') \<and>
     (\<forall>k nd. (k, nd) \<in> set (nodeMap s') \<longrightarrow> (k, nd) \<in> set (nodeMap s) \<or> stored infer ?doc nd) \<and>
     (\<forall>c. c \<in> set (queued s') \<longrightarrow> c \<in> set (queued s) \<or> shows_child ?doc c) \<and>
     (err = None \<longrightarrow> truthy ?doc \<longrightarrow> isVisibleNode ?doc \<longrightarrow> js_get ?doc ''id'' \<in> keys_of (nodeMap s'))"
  proof cases
    case skip
    then show ?thesis by (auto simp: grows_refl)
  next
    case throw
    then show ?thesis by (auto simp: grows_refl)
  next
    case store
    let ?s1 = "s\<lparr>nodeMap := AList.update (node_id nd) nd (nodeMap s),
                   fetchedCount := fetchedCount s + 1\<rparr>"
    have g1: "grows s ?s1" by (auto simp: grows_def)
    have g2: "grows ?s1 s'" unfolding store(4) by (rule grows_enqueue_all)
    have g: "grows s s'" by (rule grows_trans[OF g1 g2])
    have nm: "nodeMap s' = AList.update (node_id nd) nd (nodeMap s)"
      by (simp add: store(4))
    have sub: "set (nodeMap s') \<subseteq> insert (node_id nd, nd) (set (nodeMap s))"
      unfolding nm by (rule set_update_subset)
    have ky: "keyed s'" if "keyed s"
      using that sub unfolding keyed_def by auto
    have q: "set (queued s') \<subseteq> set (queued s) \<union> set (childIds nd)"
      using queued_enqueue_all[of ?s1 "childIds nd"] by (simp add: store(4))
    have qs: "set (queued s) \<subseteq> set (queued s')"
      using g by (auto simp: grows_def)
    have ks: "keys_of (nodeMap s) \<subseteq> keys_of (nodeMap s')"
      using g by (auto simp: grows_def)
    have tr: "tracked s'" if t: "tracked s"
    proof -
      have "c \<in> keys_of (nodeMap s') \<or> c \<in> set (queued s')"
        if kn: "(k, n) \<in> set (nodeMap s')" and c: "c \<in> set (childIds n)" for k n c
      proof (cases "(k, n) \<in> set (nodeMap s)")
        case True
        then have "c \<in> keys_of (nodeMap s) \<or> c \<in> set (queued s)"
          using t c unfolding tracked_def by auto
        then show ?thesis using qs ks by auto
      next
        case False
        then have "n = nd" using kn sub by auto
        then have "truthy c" using childIds_truthy[OF store(3)] c by simp
        from enqueue_all_tracked[of c "childIds nd" ?s1, OF _ this] c \<open>n = nd\<close>
        have "c \<in> keys_of (nodeMap ?s1) \<or> c \<in> set (queued s')"
          by (simp add: store(4))
        then show ?thesis by (simp add: nm)
      qed
      then show ?thesis unfolding tracked_def by auto
    qed
    have prov: "shows_child ?doc c" if "c \<in> set (childIds nd)" for c
      using childIds_shown[OF store(3) that] store(1,2) by (simp add: shows_child_def)
    have st: "stored infer ?doc nd" using store by (simp add: stored_def)
    have dn: "js_get ?doc ''id'' \<in> keys_of (nodeMap s')"
      using node_id_normalizeNode[OF store(3)] by (simp add: nm)
    show ?thesis using g ky tr sub st q prov dn by auto
  qed
  then show "grows s s'" and "keyed s \<Longrightarrow> keyed s'" and "tracked s \<Longrightarrow> tracked s'"
    and "\<And>k nd. (k, nd) \<in> set (nodeMap s') \<Longrightarrow>
           (k, nd) \<in> set (nodeMap s) \<or> stored infer (doc_at nodes i) nd"
    and "\<And>c. c \<in> set (queued s') \<Longrightarrow>
           c \<in> set (queued s) \<or> shows_child (doc_at nodes i) c"
    and "err = None \<Longrightarrow> truthy (doc_at nodes i) \<Longrightarrow> isVisibleNode (doc_at nodes i) \<Longrightarrow>
           js_get (doc_at nodes i) ''id'' \<in> keys_of (nodeMap s')"
    by blast+
qed

subsection \<open>One response\<close>

lemma visit_all_props:
  assumes "visit_all infer nodes ids s = (err, s')"
  shows "grows s s' \<and> (keyed s \<longrightarrow> keyed s') \<and> (tracked s \<longrightarrow> tracked s') \<and>
     (\<forall>k nd. (k, nd) \<in> set (nodeMap s') \<longrightarrow>
        (k, nd) \<in> set (nodeMap s) \<or> (\<exists>i \<in> set ids. stored infer (doc_at nodes i) nd)) \<and>
     (\<forall>c. c \<in> set (queued s') \<longrightarrow>
        c \<in> set (queued s) \<or> (\<exists>i \<in> set ids. shows_child (doc_at nodes i) c)) \<and>
     (err = None \<longrightarrow> (\<forall>i \<in> set ids. truthy (doc_at nodes i) \<longrightarrow> isVisibleNode (doc_at nodes i) \<longrightarrow>
        js_get (doc_at nodes i) ''id'' \<in> keys_of (nodeMap s')))"
  using assms
proof (induction ids arbitrary: s)
  case Nil
  then show ?case by (simp add: grows_refl)
next
  case (Cons i ids)
  obtain e1 s1 where v: "visit infer nodes i s = (e1, s1)" by (cases "visit infer nodes i s")
  note p = visit_props[OF v]
  show ?case
  proof (cases e1)
    case (Some e)
    then have "s' = s1" "err = Some e" using Cons.prems v by auto
    then show ?thesis using p by auto
  next
    case None
    then have r: "visit_all infer nodes ids s1 = (err, s')" using Cons.prems v by simp
    note ih = Cons.IH[OF r]
    have g: "grows s s'" using grows_trans[OF p(1)] ih by blast
    have k1: "keys_of (nodeMap s1) \<subseteq> keys_of (nodeMap s')"
      using ih by (auto simp: grows_def)
    have d: "js_get (doc_at nodes i) ''id'' \<in> keys_of (nodeMap s')"
      if "truthy (doc_at nodes i)" "isVisibleNode (doc_at nodes i)"
      using p(6)[OF None that] k1 by auto
    show ?thesis
      apply (intro conjI)
      subgoal by (rule g)
      subgoal using p(2) ih by blast
      subgoal using p(3) ih by blast
      subgoal using p(4) ih by fastforce
      subgoal using p(5) ih by fastforce
      subgoal using d ih by auto
      done
  qed
qed

lemma respond_props:
  assumes "respond e ids r s = (err, s')"
  shows "grows s s' \<and> (keyed s \<longrightarrow> keyed s') \<and> (tracked s \<longrightarrow> tracked s') \<and>
     (\<forall>k nd. (k, nd) \<in> set (nodeMap s') \<longrightarrow>
        (k, nd) \<in> set (nodeMap s) \<or>
        (\<exists>data. fetchNodes e r ids = Inr data \<and>
           (\<exists>i \<in> set ids. stored (hints e) (document_of data i) nd))) \<and>
     (\<forall>c. c \<in> set (queued s') \<longrightarrow>
        c \<in> set (queued s) \<or>
        (\<exists>data. fetchNodes e r ids = Inr data \<and>
           (\<exists>i \<in> set ids. shows_child (document_of data i) c))) \<and>
     (err = None \<longrightarrow>
        (\<exists>data. fetchNodes e r ids = Inr data \<and>
           (\<forall>i \<in> set ids. truthy (document_of data i) \<longrightarrow> isVisibleNode (document_of data i) \<longrightarrow>
              js_get (document_of data i) ''id'' \<in> keys_of (nodeMap s'))))"
proof (cases "fetchNodes e r ids")
  case (Inl a)
  then have "s' = s" "err = Some a" using assms by (auto simp: respond_def)
  then show ?thesis by (auto simp: grows_refl)
next
  case (Inr data)
  then have "visit_all (hints e) (nodes_of data) ids s = (err, s')"
    using assms by (simp add: respond_def)
  from visit_all_props[OF this] show ?thesis
    unfolding document_of_def Inr by simp
qed

subsection \<open>The steps of the crawl\<close>

lemma worker_request:
  "worker request (p, s) =
     (if idx p < length (items p) then
        (p\<lparr>idx := idx p + 1, inflight := inflight p @ [(idx p, requestCount s + 1)]\<rparr>,
         s\<lparr>requestCount := requestCount s + 1, requests := requests s @ [items p ! idx p]\<rparr>)
      else (p, s))"
  by (simp add: worker_def request_def Let_def)

lemma workers_request:
  "idx p + j \<le> length (items p) \<Longrightarrow>
   (worker request ^^ j) (p, s) =
     (p\<lparr>idx := idx p + j,
        inflight := inflight p @ map (\<lambda>i. (idx p + i, requestCount s + 1 + i)) [0..<j]\<rparr>,
      s\<lparr>requestCount := requestCount s + j,
        requests := requests s @ take j (drop (idx p) (items p))\<rparr>)"
proof (induction j)
  case 0
  then show ?case by simp
next
  case (Suc j)
  then have lt: "idx p + j < length (items p)" by simp
  have tk: "take (Suc j) (drop (idx p) (items p)) =
            take j (drop (idx p) (items p)) @ [items p ! (idx p + j)]"
    using lt by (simp add: take_Suc_conv_app_nth)
  show ?case
    using Suc.IH lt by (simp add: worker_request tk)
qed

lemma mapLimit_request:
  "mapLimit request bs k s =
     (\<lparr>items = bs, idx = min k (length bs),
       inflight = map (\<lambda>i. (i, requestCount s + 1 + i)) [0..<min k (length bs)],
       rejection = None\<rparr>,
      s\<lparr>requestCount := requestCount s + min k (length bs),
        requests := requests s @ take (min k (length bs)) bs\<rparr>)"
  unfolding mapLimit_def
  by (subst workers_request) simp_all

lemma settle_request:
  assumes "inflight p ! pos = (cur, r)" "respond e (items p ! cur) r s = (err, s1)"
  shows "settle request (respond e) pos (p, s) =
     (case err of
        Some e' \<Rightarrow>
          (p\<lparr>inflight := take pos (inflight p) @ drop (Suc pos) (inflight p),
             rejection := (case rejection p of None \<Rightarrow> Some e' | Some e0 \<Rightarrow> Some e0)\<rparr>, s1)
      | None \<Rightarrow>
          if idx p < length (items p) then
            (p\<lparr>inflight := take pos (inflight p) @ drop (Suc pos) (inflight p) @
                            [(idx p, requestCount s1 + 1)],
               idx := idx p + 1\<rparr>,
             s1\<lparr>requestCount := requestCount s1 + 1,
                requests := requests s1 @ [items p ! idx p]\<rparr>)
          else (p\<lparr>inflight := take pos (inflight p) @ drop (Suc pos) (inflight p)\<rparr>, s1))"
  using assms by (cases err) (simp_all add: settle_def worker_request Let_def)

text \<open>The ten kinds of step.\<close>

lemma step_cases [consumes 1, case_names returns takes splits launch resume stuck
    settle_fail settle_next settle_last over]:
  assumes "c' = step e b k c"
  obtains
    "control c = Outer" "toExpand (state c) = []" "c' = c\<lparr>control := Finished\<rparr>"
  | "control c = Outer" "toExpand (state c) \<noteq> []"
    "c' = c\<lparr>state := (state c)\<lparr>toExpand := drop b (toExpand (state c))\<rparr>,
            control := Presplit [take b (toExpand (state c))]\<rparr>"
  | bs where "control c = Presplit bs" "toExpand (state c) \<noteq> []" "length bs < k"
    "c' = c\<lparr>state := (state c)\<lparr>toExpand := drop b (toExpand (state c))\<rparr>,
            control := Presplit (if take b (toExpand (state c)) \<noteq> []
                                 then bs @ [take b (toExpand (state c))] else bs)\<rparr>"
  | bs where "control c = Presplit bs"
    "c' = c\<lparr>state := (state c)\<lparr>requestCount := requestCount (state c) + min k (length bs),
                requests := requests (state c) @ take (min k (length bs)) bs\<rparr>,
            control := Awaiting \<lparr>items = bs, idx = min k (length bs),
              inflight = map (\<lambda>i. (i, requestCount (state c) + 1 + i)) [0..<min k (length bs)],
              rejection = None\<rparr>\<rparr>"
  | p where "control c = Awaiting p" "inflight p = []" "rejection p = None"
    "c' = c\<lparr>control := Outer\<rparr>"
  | p err where "control c = Awaiting p" "inflight p = []" "rejection p = Some err" "c' = c"
  | p pos cur r err s1 where "control c = Awaiting p" "pos < length (inflight p)"
    "pos = schedule e (clock c) mod length (inflight p)"
    "inflight p ! pos = (cur, r)" "respond e (items p ! cur) r (state c) = (Some err, s1)"
    "c' = c\<lparr>state := s1,
            control := Awaiting (p\<lparr>inflight := take pos (inflight p) @ drop (Suc pos) (inflight p),
              rejection := (case rejection p of None \<Rightarrow> Some err | Some e0 \<Rightarrow> Some e0)\<rparr>),
            clock := clock c + 1\<rparr>"
  | p pos cur r s1 where "control c = Awaiting p" "pos < length (inflight p)"
    "pos = schedule e (clock c) mod length (inflight p)"
    "inflight p ! pos = (cur, r)" "respond e (items p ! cur) r (state c) = (None, s1)"
    "idx p < length (items p)"
    "c' = c\<lparr>state := s1\<lparr>requestCount := requestCount s1 + 1,
                requests := requests s1 @ [items p ! idx p]\<rparr>,
            control := Awaiting (p\<lparr>inflight := take pos (inflight p) @ drop (Suc pos) (inflight p) @
                            [(idx p, requestCount s1 + 1)],
               idx := idx p + 1\<rparr>),
            clock := clock c + 1\<rparr>"
  | p pos cur r s1 where "control c = Awaiting p" "pos < length (inflight p)"
    "pos = schedule e (clock c) mod length (inflight p)"
    "inflight p ! pos = (cur, r)" "respond e (items p ! cur) r (state c) = (None, s1)"
    "\<not> idx p < length (items p)"
    "c' = c\<lparr>state := s1,
            control := Awaiting (p\<lparr>inflight := take pos (inflight p) @ drop (Suc pos) (inflight p)\<rparr>),
            clock := clock c + 1\<rparr>"
  | "control c = Finished" "c' = c"
proof (cases "control c")
  case Outer
  then show ?thesis using assms that(1,2) by (cases "toExpand (state c) = []") (auto simp: step_def Let_def)
next
  case (Presplit bs)
  show ?thesis
  proof (cases "toExpand (state c) \<noteq> [] \<and> length bs < k")
    case True
    then show ?thesis using assms Presplit that(3)[of bs] by (simp add: step_def Let_def)
  next
    case False
    then show ?thesis using assms Presplit that(4)[of bs]
      by (auto simp add: step_def Let_def mapLimit_request)
  qed
next
  case (Awaiting p)
  show ?thesis
  proof (cases "inflight p = []")
    case True
    then show ?thesis using assms Awaiting that(5,6)[of p]
      by (cases "rejection p") (auto simp: step_def Let_def)
  next
    case False
    define pos where "pos = schedule e (clock c) mod length (inflight p)"
    have pl: "pos < length (inflight p)" using False by (simp add: pos_def)
    obtain cur r where cr: "inflight p ! pos = (cur, r)" by (cases "inflight p ! pos")
    obtain err s1 where rs: "respond e (items p ! cur) r (state c) = (err, s1)"
      by (cases "respond e (items p ! cur) r (state c)")
    have st: "c' = (let (p', s') = settle request (respond e) pos (p, state c)
                    in c\<lparr>state := s', control := Awaiting p', clock := clock c + 1\<rparr>)"
      using assms Awaiting False by (simp add: step_def Let_def pos_def)
    show ?thesis
    proof (cases err)
      case (Some e')
      have "c' = c\<lparr>state := s1,
            control := Awaiting (p\<lparr>inflight := take pos (inflight p) @ drop (Suc pos) (inflight p),
              rejection := (case rejection p of None \<Rightarrow> Some e' | Some e0 \<Rightarrow> Some e0)\<rparr>),
            clock := clock c + 1\<rparr>"
        unfolding st by (simp add: settle_request[OF cr rs] Some)
      then show ?thesis
        using that(7)[OF Awaiting pl pos_def cr rs[unfolded Some]] by blast
    next
      case None
      show ?thesis
      proof (cases "idx p < length (items p)")
        case True
        have "c' = c\<lparr>state := s1\<lparr>requestCount := requestCount s1 + 1,
                requests := requests s1 @ [items p ! idx p]\<rparr>,
            control := Awaiting (p\<lparr>inflight := take pos (inflight p) @ drop (Suc pos) (inflight p) @
                            [(idx p, requestCount s1 + 1)],
               idx := idx p + 1\<rparr>),
            clock := clock c + 1\<rparr>"
          unfolding st by (simp add: settle_request[OF cr rs] None True)
        then show ?thesis
          using that(8)[OF Awaiting pl pos_def cr rs[unfolded None] True] by blast
      next
        case False
        have "c' = c\<lparr>state := s1,
            control := Awaiting (p\<lparr>inflight := take pos (inflight p) @ drop (Suc pos) (inflight p)\<rparr>),
            clock := clock c + 1\<rparr>"
          unfolding st by (simp add: settle_request[OF cr rs] None False)
        then show ?thesis
          using that(9)[OF Awaiting pl pos_def cr rs[unfolded None] False] by blast
      qed
    qed
  qed
next
  case Finished
  then show ?thesis using assms that(10) by (simp add: step_def)
qed

subsection \<open>Invariants\<close>

lemma settle_facts:
  assumes "control c = Awaiting p" "logged c" "pos < length (inflight p)"
    "inflight p ! pos = (cur, r)"
  shows "cur < length (items p)" "1 \<le> r" "r \<le> length (requests (state c))"
    "requests (state c) ! (r - 1) = items p ! cur" "Suc (r - 1) = r"
    "idx p \<le> length (items p)" "requestCount (state c) = length (requests (state c))"
proof -
  have "(cur, r) \<in> set (inflight p)" using assms(3,4) nth_mem by fastforce
  then show "cur < length (items p)" "1 \<le> r" "r \<le> length (requests (state c))"
    "requests (state c) ! (r - 1) = items p ! cur" "Suc (r - 1) = r"
    "idx p \<le> length (items p)" "requestCount (state c) = length (requests (state c))"
    using assms(1,2) by (auto simp: logged_def waits_for_def)
qed

lemma set_remove_nth: "set (take pos xs @ drop (Suc pos) xs) \<subseteq> set xs"
  by (auto dest: in_set_takeD in_set_dropD)

lemma grows_accounted:
  assumes g: "grows s s1"
    and d: "distinct (A @ B @ toExpand s)" and sub: "set (A @ B @ toExpand s) \<subseteq> set (queued s)"
    and dq: "distinct (queued s)"
  shows "distinct (A @ B @ toExpand s1) \<and> set (A @ B @ toExpand s1) \<subseteq> set (queued s1) \<and>
         distinct (queued s1)"
proof -
  from g obtain new where n: "queued s1 = queued s @ new" "toExpand s1 = toExpand s @ new"
    "distinct new" "set new \<inter> set (queued s) = {}" by (auto simp: grows_def)
  show ?thesis using d sub dq n by auto
qed

lemma accounted_same:
  assumes "accounted c"
    and "concat (requests (state c')) @ pending (control c') @ toExpand (state c') =
         concat (requests (state c)) @ pending (control c) @ toExpand (state c)"
    and "queued (state c') = queued (state c)"
  shows "accounted c'"
  using assms unfolding accounted_def by metis

lemma accounted_grown:
  assumes "accounted c" "grows (state c) s1"
    and "concat (requests (state c')) @ pending (control c') @ toExpand (state c') =
         concat (requests (state c)) @ pending (control c) @ toExpand s1"
    and "queued (state c') = queued s1"
  shows "accounted c'"
proof -
  from grows_accounted[OF assms(2), of "concat (requests (state c))" "pending (control c)"] assms(1)
  have "distinct (concat (requests (state c)) @ pending (control c) @ toExpand s1) \<and>
        set (concat (requests (state c)) @ pending (control c) @ toExpand s1) \<subseteq> set (queued s1) \<and>
        distinct (queued s1)"
    by (simp add: accounted_def)
  then show ?thesis unfolding accounted_def assms(3,4) .
qed

lemma accounted_step:
  assumes "accounted c"
  shows "accounted (step e b k c)"
proof -
  define c' where "c' = step e b k c"
  let ?s = "state c"
  from c'_def have "accounted c'"
  proof (cases rule: step_cases)
    case returns
    then show ?thesis by (intro accounted_same[OF assms]) (simp_all add: pending_def)
  next
    case takes
    then show ?thesis by (intro accounted_same[OF assms]) (simp_all add: pending_def)
  next
    case (splits bs)
    have "take b (toExpand ?s) = [] \<Longrightarrow> drop b (toExpand ?s) = toExpand ?s"
      by (metis append_take_drop_id append_Nil)
    then show ?thesis using splits
      by (intro accounted_same[OF assms]) (simp_all add: pending_def)
  next
    case (launch bs)
    have "concat (take (min k (length bs)) bs) @ concat (drop (min k (length bs)) bs) = concat bs"
      by (metis append_take_drop_id concat_append)
    then show ?thesis using launch
      by (intro accounted_same[OF assms]) (simp_all add: pending_def)
  next
    case (resume p)
    have "set (concat (requests ?s) @ toExpand ?s) \<subseteq>
          set (concat (requests ?s) @ pending (control c) @ toExpand ?s)" by auto
    then show ?thesis using resume assms
      by (auto simp add: accounted_def pending_def)
  next
    case (stuck p err)
    then show ?thesis using assms by simp
  next
    case (settle_fail p pos cur r err s1)
    have g: "grows ?s s1" using respond_props[OF settle_fail(5)] by blast
    show ?thesis using settle_fail g
      by (intro accounted_grown[OF assms g]) (simp_all add: pending_def grows_def)
  next
    case (settle_next p pos cur r s1)
    have g: "grows ?s s1" using respond_props[OF settle_next(5)] by blast
    have "concat (drop (idx p) (items p)) = items p ! idx p @ concat (drop (Suc (idx p)) (items p))"
      using settle_next(6) by (metis Cons_nth_drop_Suc concat.simps(2))
    then show ?thesis using settle_next g
      by (intro accounted_grown[OF assms g]) (simp_all add: pending_def grows_def)
  next
    case (settle_last p pos cur r s1)
    have g: "grows ?s s1" using respond_props[OF settle_last(5)] by blast
    show ?thesis using settle_last g
      by (intro accounted_grown[OF assms g]) (simp_all add: pending_def grows_def)
  next
    case over
    then show ?thesis using assms by simp
  qed
  then show ?thesis by (simp add: c'_def)
qed

lemma accounted_init: "accounted (init rootId)"
  by (simp add: accounted_def init_def enqueue_eq pending_def)

lemma accounted_crawl: "accounted (crawlSubtree e rootId b k n)"
  unfolding crawlSubtree_def
  by (induction n) (simp_all add: accounted_init accounted_step)

lemma state_step [consumes 1, case_names same trim log respond]:
  assumes "c' = step e b k c"
  obtains "state c' = state c"
  | "state c' = (state c)\<lparr>toExpand := drop b (toExpand (state c))\<rparr>"
  | rs rc where "state c' = (state c)\<lparr>requestCount := rc, requests := requests (state c) @ rs\<rparr>"
  | ids r err s1 rc rs where "respond e ids r (state c) = (err, s1)"
      "state c' = s1 \<or> state c' = s1\<lparr>requestCount := rc, requests := requests s1 @ rs\<rparr>"
  using assms
proof (cases rule: step_cases)
  case returns
  then show ?thesis using that(1) by simp
next
  case takes
  then show ?thesis using that(2) by simp
next
  case (splits bs)
  then show ?thesis using that(2) by simp
next
  case (launch bs)
  have "state c' = (state c)\<lparr>requestCount := requestCount (state c) + min k (length bs),
                requests := requests (state c) @ take (min k (length bs)) bs\<rparr>"
    by (simp add: launch(2))
  then show ?thesis by (rule that(3))
next
  case (resume p)
  then show ?thesis using that(1) by simp
next
  case (stuck p err)
  then show ?thesis using that(1) by simp
next
  case (settle_fail p pos cur r err s1)
  have "state c' = s1 \<or> state c' = s1\<lparr>requestCount := 0, requests := requests s1 @ []\<rparr>"
    by (simp add: settle_fail(6))
  then show ?thesis by (rule that(4)[OF settle_fail(5)])
next
  case (settle_next p pos cur r s1)
  have "state c' = s1 \<or> state c' = s1\<lparr>requestCount := requestCount s1 + 1,
          requests := requests s1 @ [items p ! idx p]\<rparr>"
    by (simp add: settle_next(7))
  then show ?thesis by (rule that(4)[OF settle_next(5)])
next
  case (settle_last p pos cur r s1)
  have "state c' = s1 \<or> state c' = s1\<lparr>requestCount := 0, requests := requests s1 @ []\<rparr>"
    by (simp add: settle_last(7))
  then show ?thesis by (rule that(4)[OF settle_last(5)])
next
  case over
  then show ?thesis using that(1) by simp
qed

lemma keyed_step:
  assumes "keyed (state c)"
  shows "keyed (state (step e b k c))"
proof -
  define c' where "c' = step e b k c"
  from c'_def have "keyed (state c')"
  proof (cases rule: state_step)
    case (respond ids r err s1 rc rs)
    have "keyed s1" using respond_props[OF respond(1)] assms by blast
    then show ?thesis using respond(2) by (elim disjE) (simp_all add: keyed_def)
  qed (use assms in \<open>auto simp: keyed_def\<close>)
  then show ?thesis by (simp add: c'_def)
qed

lemma keyed_crawl: "keyed (state (crawlSubtree e rootId b k n))"
  unfolding crawlSubtree_def
  by (induction n) (simp_all add: keyed_step, simp add: init_def keyed_def enqueue_eq)

lemma tracked_step:
  assumes "tracked (state c)"
  shows "tracked (state (step e b k c))"
proof -
  define c' where "c' = step e b k c"
  from c'_def have "tracked (state c')"
  proof (cases rule: state_step)
    case (respond ids r err s1 rc rs)
    have "tracked s1" using respond_props[OF respond(1)] assms by blast
    then show ?thesis using respond(2) by (elim disjE) (simp_all add: tracked_def)
  qed (use assms in \<open>auto simp: tracked_def\<close>)
  then show ?thesis by (simp add: c'_def)
qed

lemma tracked_crawl: "tracked (state (crawlSubtree e rootId b k n))"
  unfolding crawlSubtree_def
  by (induction n) (simp_all add: tracked_step, simp add: init_def tracked_def enqueue_eq)




lemma waits_for_append:
  "waits_for reqs its u \<Longrightarrow> waits_for (reqs @ rs) its u"
  by (auto simp: waits_for_def nth_append)

lemma waits_for_new:
  "i < length its \<Longrightarrow> waits_for (reqs @ [its ! i]) its (i, Suc (length reqs))"
  by (simp add: waits_for_def)

lemma logged_step:
  assumes "logged c"
  shows "logged (step e b k c)"
proof -
  define c' where "c' = step e b k c"
  have rc: "requestCount (state c) = length (requests (state c))"
    using assms by (simp add: logged_def)
  from c'_def have "logged c'"
  proof (cases rule: step_cases)
    case returns
    then show ?thesis using rc by (simp add: logged_def)
  next
    case takes
    then show ?thesis using rc by (simp add: logged_def)
  next
    case (splits bs)
    then show ?thesis using rc by (simp add: logged_def)
  next
    case (launch bs)
    have "waits_for (requests (state c) @ take (min k (length bs)) bs) bs
            (i, requestCount (state c) + 1 + i)" if "i < min k (length bs)" for i
      using that rc by (simp add: waits_for_def nth_append)
    then show ?thesis using launch rc by (auto simp add: logged_def)
  next
    case (resume p)
    then show ?thesis using rc by (simp add: logged_def)
  next
    case (stuck p err)
    then show ?thesis using assms by simp
  next
    case (settle_fail p pos cur r err s1)
    have g: "requests s1 = requests (state c)" "requestCount s1 = requestCount (state c)"
      using respond_props[OF settle_fail(5)] by (auto simp: grows_def)
    have old: "idx p \<le> length (items p)"
      "\<forall>u \<in> set (inflight p). waits_for (requests (state c)) (items p) u"
      using assms settle_fail(1) by (auto simp: logged_def)
    have "\<forall>u \<in> set (take pos (inflight p) @ drop (Suc pos) (inflight p)).
            waits_for (requests (state c)) (items p) u"
      using old(2) set_remove_nth[of pos "inflight p"] by blast
    then show ?thesis using settle_fail(6) g rc old(1) by (simp add: logged_def)
  next
    case (settle_next p pos cur r s1)
    have g: "requests s1 = requests (state c)" "requestCount s1 = requestCount (state c)"
      using respond_props[OF settle_next(5)] by (auto simp: grows_def)
    have old: "idx p \<le> length (items p)"
      "\<forall>u \<in> set (inflight p). waits_for (requests (state c)) (items p) u"
      using assms settle_next(1) by (auto simp: logged_def)
    have "\<forall>u \<in> set (take pos (inflight p) @ drop (Suc pos) (inflight p)).
            waits_for (requests (state c) @ [items p ! idx p]) (items p) u"
      using old(2) set_remove_nth[of pos "inflight p"] waits_for_append by blast
    moreover have "waits_for (requests (state c) @ [items p ! idx p]) (items p)
            (idx p, Suc (length (requests (state c))))"
      using waits_for_new[OF settle_next(6)] .
    ultimately have "\<forall>u \<in> set (take pos (inflight p) @ drop (Suc pos) (inflight p) @
                            [(idx p, requestCount s1 + 1)]).
            waits_for (requests (state c) @ [items p ! idx p]) (items p) u"
      using g rc by auto
    then show ?thesis using settle_next(6,7) g rc by (simp add: logged_def)
  next
    case (settle_last p pos cur r s1)
    have g: "requests s1 = requests (state c)" "requestCount s1 = requestCount (state c)"
      using respond_props[OF settle_last(5)] by (auto simp: grows_def)
    have old: "idx p \<le> length (items p)"
      "\<forall>u \<in> set (inflight p). waits_for (requests (state c)) (items p) u"
      using assms settle_last(1) by (auto simp: logged_def)
    have "\<forall>u \<in> set (take pos (inflight p) @ drop (Suc pos) (inflight p)).
            waits_for (requests (state c)) (items p) u"
      using old(2) set_remove_nth[of pos "inflight p"] by blast
    then show ?thesis using settle_last(7) g rc old(1) by (simp add: logged_def)
  next
    case over
    then show ?thesis using assms by simp
  qed
  then show ?thesis by (simp add: c'_def)
qed

lemma logged_crawl: "logged (crawlSubtree e rootId b k n)"
  unfolding crawlSubtree_def
  by (induction n) (simp_all add: logged_step, simp add: init_def logged_def enqueue_eq)

subsection \<open>The example crawls\<close>

lemma normalize_root: "normalizeNode (\<lambda>kn. Inr []) doc_root = Inr node_root"
  by code_simp

lemma normalize_A: "normalizeNode (\<lambda>kn. Inr []) doc_A = Inr node_A"
  by code_simp



lemma fetchNodes_file:
  "fetchNodes (file_env docs broken sched) r ids =
     (if broken ids then Inl (ApiError 404 [] ''body'') else Inr (reply docs ids))"
  by (simp add: fetchNodes_def file_env_def figmaFetchJson_def figmaFetchJson_loop.simps
      resp_def shouldRetry_def)

lemma hints_file [simp]: "hints (file_env docs broken sched) = (\<lambda>kn. Inr [])"
  by (simp add: file_env_def)

lemma schedule_file [simp]: "schedule (file_env docs broken sched) = sched"
  by (simp add: file_env_def)

lemma nodes_of_reply:
  "nodes_of (reply docs ids) =
     JObj (map (\<lambda>i. (to_string i,
                     case map_of docs (to_string i) of
                       Some d \<Rightarrow> JObj [(''document'', d)]
                     | None \<Rightarrow> JNull)) ids)"
  by (simp add: nodes_of_def reply_def nullish_def Let_def)

lemma docs_shown [simp]:
  "truthy doc_root" "isVisibleNode doc_root" "truthy doc_A" "isVisibleNode doc_A"
  "truthy doc_pair" "isVisibleNode doc_pair" "truthy doc_D" "isVisibleNode doc_D"
  "truthy doc_B" "\<not> isVisibleNode doc_B"
  by (simp_all add: doc_root_def doc_A_def doc_pair_def doc_D_def doc_B_def isVisibleNode_def)

lemma respond_root:
  "respond (tree_env sched) [JStr ''0:1''] (Suc 0) s0 =
     (None, s0\<lparr>nodeMap := [(JStr ''0:1'', node_root)], fetchedCount := 1,
              queued := [JStr ''0:1'', JStr ''1:1''], toExpand := [JStr ''1:1'']\<rparr>)"
  by (simp add: respond_def tree_env_def fetchNodes_file nodes_of_reply visit_cases doc_at_def
      tree_docs_def normalize_root s0_def enqueue_eq fresh_def keys_of_def node_root_def)


lemma respond_A:
  "respond (tree_env sched) [JStr ''1:1''] 2
     \<lparr>nodeMap = [(JStr ''0:1'', node_root)], toExpand = [],
      queued = [JStr ''0:1'', JStr ''1:1''], fetchedCount = Suc 0, requestCount = 2,
      requests = [[JStr ''0:1''], [JStr ''1:1'']]\<rparr> =
     (None,
      \<lparr>nodeMap = [(JStr ''0:1'', node_root), (JStr ''1:1'', node_A)], toExpand = [],
       queued = [JStr ''0:1'', JStr ''1:1''], fetchedCount = 2, requestCount = 2,
       requests = [[JStr ''0:1''], [JStr ''1:1'']]\<rparr>)"
  by (simp add: respond_def tree_env_def fetchNodes_file nodes_of_reply visit_cases doc_at_def
      tree_docs_def normalize_A node_A_def)

lemma crawl_step:
  "crawlSubtree e rootId b k n = c \<Longrightarrow> m = Suc n \<Longrightarrow> crawlSubtree e rootId b k m = step e b k c"
  by (simp add: crawlSubtree_def)

lemma tree_crawl:
  assumes "1 \<le> b" "1 \<le> k"
  shows "crawlSubtree (tree_env sched) (JStr ''0:1'') b k 9 =
     \<lparr>state = \<lparr>nodeMap = [(JStr ''0:1'', node_root), (JStr ''1:1'', node_A)], toExpand = [],
               queued = [JStr ''0:1'', JStr ''1:1''], fetchedCount = 2, requestCount = 2,
               requests = [[JStr ''0:1''], [JStr ''1:1'']]\<rparr>,
      control = Finished, clock = 2\<rparr>"
proof -
  let ?e = "tree_env sched" and ?r = "JStr ''0:1''"
  have tk: "take b [x] = [x]" "drop b [x] = []" for x :: jsval
    using assms(1) by (cases b; simp)+
  have mn: "min k (Suc 0) = Suc 0" using assms(2) by simp
  have c0: "crawlSubtree ?e ?r b k 0 =
     \<lparr>state = \<lparr>nodeMap = [], toExpand = [JStr ''0:1''], queued = [JStr ''0:1''],
               fetchedCount = 0, requestCount = 0, requests = []\<rparr>,
      control = Outer, clock = 0\<rparr>"
    by (simp add: crawlSubtree_def init_def enqueue_def)
  have c1: "crawlSubtree ?e ?r b k 1 =
     \<lparr>state = \<lparr>nodeMap = [], toExpand = [], queued = [JStr ''0:1''],
               fetchedCount = 0, requestCount = 0, requests = []\<rparr>,
      control = Presplit [[JStr ''0:1'']], clock = 0\<rparr>"
    using crawl_step[OF c0, of 1] by (simp add: step_def tk)
  have c2: "crawlSubtree ?e ?r b k 2 =
     \<lparr>state = s0,
      control = Awaiting \<lparr>items = [[JStr ''0:1'']], idx = 1, inflight = [(0, 1)], rejection = None\<rparr>,
      clock = 0\<rparr>"
    using crawl_step[OF c1, of 2] by (simp add: step_def mapLimit_request mn s0_def)
  have c3: "crawlSubtree ?e ?r b k 3 =
     \<lparr>state = s0\<lparr>nodeMap := [(JStr ''0:1'', node_root)], fetchedCount := 1,
              queued := [JStr ''0:1'', JStr ''1:1''], toExpand := [JStr ''1:1'']\<rparr>,
      control = Awaiting \<lparr>items = [[JStr ''0:1'']], idx = 1, inflight = [], rejection = None\<rparr>,
      clock = 1\<rparr>"
    using crawl_step[OF c2, of 3] by (simp add: step_def settle_def worker_request respond_root Let_def)
  have c4: "crawlSubtree ?e ?r b k 4 =
     \<lparr>state = s0\<lparr>nodeMap := [(JStr ''0:1'', node_root)], fetchedCount := 1,
              queued := [JStr ''0:1'', JStr ''1:1''], toExpand := [JStr ''1:1'']\<rparr>,
      control = Outer, clock = 1\<rparr>"
    using crawl_step[OF c3, of 4] by (simp add: step_def)
  have c5: "crawlSubtree ?e ?r b k 5 =
     \<lparr>state = s0\<lparr>nodeMap := [(JStr ''0:1'', node_root)], fetchedCount := 1,
              queued := [JStr ''0:1'', JStr ''1:1''], toExpand := []\<rparr>,
      control = Presplit [[JStr ''1:1'']], clock = 1\<rparr>"
    using crawl_step[OF c4, of 5] by (simp add: step_def tk s0_def)
  have c6: "crawlSubtree ?e ?r b k 6 =
     \<lparr>state = \<lparr>nodeMap = [(JStr ''0:1'', node_root)], toExpand = [],
      queued = [JStr ''0:1'', JStr ''1:1''], fetchedCount = 1, requestCount = 2,
      requests = [[JStr ''0:1''], [JStr ''1:1'']]\<rparr>,
      control = Awaiting \<lparr>items = [[JStr ''1:1'']], idx = 1, inflight = [(0, 2)], rejection = None\<rparr>,
      clock = 1\<rparr>"
    using crawl_step[OF c5, of 6] by (simp add: step_def mapLimit_request mn s0_def)
  have c7: "crawlSubtree ?e ?r b k 7 =
     \<lparr>state = \<lparr>nodeMap = [(JStr ''0:1'', node_root), (JStr ''1:1'', node_A)], toExpand = [],
       queued = [JStr ''0:1'', JStr ''1:1''], fetchedCount = 2, requestCount = 2,
       requests = [[JStr ''0:1''], [JStr ''1:1'']]\<rparr>,
      control = Awaiting \<lparr>items = [[JStr ''1:1'']], idx = 1, inflight = [], rejection = None\<rparr>,
      clock = 2\<rparr>"
    using crawl_step[OF c6, of 7] by (simp add: step_def settle_def worker_request respond_A Let_def)
  have c8: "crawlSubtree ?e ?r b k 8 =
     \<lparr>state = \<lparr>nodeMap = [(JStr ''0:1'', node_root), (JStr ''1:1'', node_A)], toExpand = [],
       queued = [JStr ''0:1'', JStr ''1:1''], fetchedCount = 2, requestCount = 2,
       requests = [[JStr ''0:1''], [JStr ''1:1'']]\<rparr>,
      control = Outer, clock = 2\<rparr>"
    using crawl_step[OF c7, of 8] by (simp add: step_def)
  show ?thesis
    using crawl_step[OF c8, of 9] by (simp add: step_def)
qed

lemma alias_crawl:
  "crawlSubtree alias_env (JStr ''0:1'') 1 1 3 =
     \<lparr>state = \<lparr>nodeMap = [(JStr ''1:1'', node_A)], toExpand = [], queued = [JStr ''0:1''],
               fetchedCount = 1, requestCount = 1, requests = [[JStr ''0:1'']]\<rparr>,
      control = Awaiting \<lparr>items = [[JStr ''0:1'']], idx = 1, inflight = [], rejection = None\<rparr>,
      clock = 1\<rparr>"
proof -
  let ?e = "alias_env" and ?r = "JStr ''0:1''"
  have c0: "crawlSubtree ?e ?r 1 1 0 =
     \<lparr>state = \<lparr>nodeMap = [], toExpand = [JStr ''0:1''], queued = [JStr ''0:1''],
               fetchedCount = 0, requestCount = 0, requests = []\<rparr>,
      control = Outer, clock = 0\<rparr>"
    by (simp add: crawlSubtree_def init_def enqueue_def)
  have c1: "crawlSubtree ?e ?r 1 1 1 =
     \<lparr>state = \<lparr>nodeMap = [], toExpand = [], queued = [JStr ''0:1''],
               fetchedCount = 0, requestCount = 0, requests = []\<rparr>,
      control = Presplit [[JStr ''0:1'']], clock = 0\<rparr>"
    using crawl_step[OF c0, of 1] by (simp add: step_def)
  have c2: "crawlSubtree ?e ?r 1 1 2 =
     \<lparr>state = s0,
      control = Awaiting \<lparr>items = [[JStr ''0:1'']], idx = 1, inflight = [(0, 1)], rejection = None\<rparr>,
      clock = 0\<rparr>"
    using crawl_step[OF c1, of 2] by (simp add: step_def mapLimit_request s0_def)
  have r: "respond alias_env [JStr ''0:1''] (Suc 0) s0 =
     (None, s0\<lparr>nodeMap := [(JStr ''1:1'', node_A)], fetchedCount := 1\<rparr>)"
    by (simp add: respond_def alias_env_def fetchNodes_file nodes_of_reply visit_cases doc_at_def
        normalize_A s0_def node_A_def)
  show ?thesis
    using crawl_step[OF c2, of 3]
    by (simp add: step_def settle_def worker_request r Let_def) (simp add: s0_def)
qed

lemma normalize_plain: "normalizeNode (\<lambda>kn. Inr []) doc_plain = Inr node_plain"
  by code_simp

lemma plain_shown: "truthy doc_plain" "isVisibleNode doc_plain"
  by (simp_all add: doc_plain_def isVisibleNode_def)

lemma respond_plain:
  "respond (plain_env sched) [JStr ''0:1''] (Suc 0) s0 =
     (None, s0\<lparr>nodeMap := [(JStr ''0:1'', node_plain)], fetchedCount := 1,
              queued := [JStr ''0:1'', JStr ''1:1'', JStr ''1:2''],
              toExpand := [JStr ''1:1'', JStr ''1:2'']\<rparr>)"
  by (simp add: respond_def plain_env_def fetchNodes_file nodes_of_reply visit_cases doc_at_def
      plain_docs_def normalize_plain plain_shown s0_def enqueue_eq fresh_def keys_of_def
      node_plain_def)

lemma respond_A_B:
  "respond (plain_env sched) [JStr ''1:1'', JStr ''1:2''] 2
     \<lparr>nodeMap = [(JStr ''0:1'', node_plain)], toExpand = [],
      queued = [JStr ''0:1'', JStr ''1:1'', JStr ''1:2''], fetchedCount = Suc 0,
      requestCount = 2, requests = [[JStr ''0:1''], [JStr ''1:1'', JStr ''1:2'']]\<rparr> =
     (None,
      \<lparr>nodeMap = [(JStr ''0:1'', node_plain), (JStr ''1:1'', node_A)], toExpand = [],
       queued = [JStr ''0:1'', JStr ''1:1'', JStr ''1:2''], fetchedCount = 2,
       requestCount = 2, requests = [[JStr ''0:1''], [JStr ''1:1'', JStr ''1:2'']]\<rparr>)"
  by (simp add: respond_def plain_env_def fetchNodes_file nodes_of_reply visit_cases doc_at_def
      plain_docs_def normalize_A node_A_def)

lemma plain_crawl:
  assumes "2 \<le> b" "1 \<le> k"
  shows "crawlSubtree (plain_env sched) (JStr ''0:1'') b k 9 =
     \<lparr>state = \<lparr>nodeMap = [(JStr ''0:1'', node_plain), (JStr ''1:1'', node_A)], toExpand = [],
               queued = [JStr ''0:1'', JStr ''1:1'', JStr ''1:2''], fetchedCount = 2,
               requestCount = 2, requests = [[JStr ''0:1''], [JStr ''1:1'', JStr ''1:2'']]\<rparr>,
      control = Finished, clock = 2\<rparr>"
proof -
  let ?e = "plain_env sched" and ?r = "JStr ''0:1''"
  obtain b' where b: "b = Suc (Suc b')"
    using assms(1) by (metis Suc_le_D numeral_2_eq_2 Suc_le_mono)
  have tk: "take b [x] = [x]" "drop b [x] = []" "take b [x, y] = [x, y]" "drop b [x, y] = []"
    for x y :: jsval
    by (simp_all add: b)
  have mn: "min k (Suc 0) = Suc 0" using assms(2) by simp
  have c0: "crawlSubtree ?e ?r b k 0 =
     \<lparr>state = \<lparr>nodeMap = [], toExpand = [JStr ''0:1''], queued = [JStr ''0:1''],
               fetchedCount = 0, requestCount = 0, requests = []\<rparr>,
      control = Outer, clock = 0\<rparr>"
    by (simp add: crawlSubtree_def init_def enqueue_def)
  have c1: "crawlSubtree ?e ?r b k 1 =
     \<lparr>state = \<lparr>nodeMap = [], toExpand = [], queued = [JStr ''0:1''],
               fetchedCount = 0, requestCount = 0, requests = []\<rparr>,
      control = Presplit [[JStr ''0:1'']], clock = 0\<rparr>"
    using crawl_step[OF c0, of 1] by (simp add: step_def tk)
  have c2: "crawlSubtree ?e ?r b k 2 =
     \<lparr>state = s0,
      control = Awaiting \<lparr>items = [[JStr ''0:1'']], idx = 1, inflight = [(0, 1)], rejection = None\<rparr>,
      clock = 0\<rparr>"
    using crawl_step[OF c1, of 2] by (simp add: step_def mapLimit_request mn s0_def)
  have c3: "crawlSubtree ?e ?r b k 3 =
     \<lparr>state = s0\<lparr>nodeMap := [(JStr ''0:1'', node_plain)], fetchedCount := 1,
              queued := [JStr ''0:1'', JStr ''1:1'', JStr ''1:2''],
              toExpand := [JStr ''1:1'', JStr ''1:2'']\<rparr>,
      control = Awaiting \<lparr>items = [[JStr ''0:1'']], idx = 1, inflight = [], rejection = None\<rparr>,
      clock = 1\<rparr>"
    using crawl_step[OF c2, of 3]
    by (simp add: step_def settle_def worker_request respond_plain Let_def)
  have c4: "crawlSubtree ?e ?r b k 4 =
     \<lparr>state = s0\<lparr>nodeMap := [(JStr ''0:1'', node_plain)], fetchedCount := 1,
              queued := [JStr ''0:1'', JStr ''1:1'', JStr ''1:2''],
              toExpand := [JStr ''1:1'', JStr ''1:2'']\<rparr>,
      control = Outer, clock = 1\<rparr>"
    using crawl_step[OF c3, of 4] by (simp add: step_def)
  have c5: "crawlSubtree ?e ?r b k 5 =
     \<lparr>state = s0\<lparr>nodeMap := [(JStr ''0:1'', node_plain)], fetchedCount := 1,
              queued := [JStr ''0:1'', JStr ''1:1'', JStr ''1:2''], toExpand := []\<rparr>,
      control = Presplit [[JStr ''1:1'', JStr ''1:2'']], clock = 1\<rparr>"
    using crawl_step[OF c4, of 5] by (simp add: step_def tk s0_def)
  have c6: "crawlSubtree ?e ?r b k 6 =
     \<lparr>state = \<lparr>nodeMap = [(JStr ''0:1'', node_plain)], toExpand = [],
      queued = [JStr ''0:1'', JStr ''1:1'', JStr ''1:2''], fetchedCount = 1, requestCount = 2,
      requests = [[JStr ''0:1''], [JStr ''1:1'', JStr ''1:2'']]\<rparr>,
      control = Awaiting \<lparr>items = [[JStr ''1:1'', JStr ''1:2'']], idx = 1, inflight = [(0, 2)],
                          rejection = None\<rparr>,
      clock = 1\<rparr>"
    using crawl_step[OF c5, of 6] by (simp add: step_def mapLimit_request mn s0_def)
  have c7: "crawlSubtree ?e ?r b k 7 =
     \<lparr>state = \<lparr>nodeMap = [(JStr ''0:1'', node_plain), (JStr ''1:1'', node_A)], toExpand = [],
       queued = [JStr ''0:1'', JStr ''1:1'', JStr ''1:2''], fetchedCount = 2, requestCount = 2,
       requests = [[JStr ''0:1''], [JStr ''1:1'', JStr ''1:2'']]\<rparr>,
      control = Awaiting \<lparr>items = [[JStr ''1:1'', JStr ''1:2'']], idx = 1, inflight = [],
                          rejection = None\<rparr>,
      clock = 2\<rparr>"
    using crawl_step[OF c6, of 7]
    by (simp add: step_def settle_def worker_request respond_A_B Let_def)
  have c8: "crawlSubtree ?e ?r b k 8 =
     \<lparr>state = \<lparr>nodeMap = [(JStr ''0:1'', node_plain), (JStr ''1:1'', node_A)], toExpand = [],
       queued = [JStr ''0:1'', JStr ''1:1'', JStr ''1:2''], fetchedCount = 2, requestCount = 2,
       requests = [[JStr ''0:1''], [JStr ''1:1'', JStr ''1:2'']]\<rparr>,
      control = Outer, clock = 2\<rparr>"
    using crawl_step[OF c7, of 8] by (simp add: step_def)
  show ?thesis
    using crawl_step[OF c8, of 9] by (simp add: step_def)
qed

text \<open>
  Claim C1. At every point of every crawl, whatever the root, the batch size, the
  concurrency, the answers of the fetcher and the order in which they arrive: no
  identifier has been queued twice, no identifier occurs twice in the requests made (in
  one batch or in two), and only queued identifiers have been requested.
\<close>

theorem C1_each_id_once:
  "distinct (queued (state (crawlSubtree e rootId batchSize concurrency n))) \<and>
   distinct (concat (requests (state (crawlSubtree e rootId batchSize concurrency n)))) \<and>
   set (concat (requests (state (crawlSubtree e rootId batchSize concurrency n)))) \<subseteq>
     set (queued (state (crawlSubtree e rootId batchSize concurrency n)))"
  using accounted_crawl[of e rootId batchSize concurrency n]
  by (simp add: accounted_def)

text \<open>
  Claim C7. The file of the scenario: the document of the root lists A and B, the document
  of B has \<^verbatim>\<open>visible\<close> \<^verbatim>\<open>false\<close> and lists C. With batches of at least 2, a concurrency of at
  least 1 and whatever the order of arrival, the crawl from the root returns at its ninth
  step and nothing changes afterwards; the result map holds the root and A and nothing else,
  so neither B nor C; and exactly two requests were made, the first for the root and the
  second for A and B together.
\<close>

theorem C7_scenario:
  assumes "2 \<le> batchSize" "1 \<le> concurrency"
  shows "result (crawlSubtree (plain_env sched) (JStr ''0:1'') batchSize concurrency (9 + m)) =
           Returned \<and>
         nodeMap (state (crawlSubtree (plain_env sched) (JStr ''0:1'') batchSize concurrency (9 + m))) =
           [(JStr ''0:1'', node_plain), (JStr ''1:1'', node_A)] \<and>
         JStr ''1:2'' \<notin> keys_of (nodeMap (state
           (crawlSubtree (plain_env sched) (JStr ''0:1'') batchSize concurrency (9 + m)))) \<and>
         JStr ''2:1'' \<notin> keys_of (nodeMap (state
           (crawlSubtree (plain_env sched) (JStr ''0:1'') batchSize concurrency (9 + m)))) \<and>
         requests (state (crawlSubtree (plain_env sched) (JStr ''0:1'') batchSize concurrency (9 + m))) =
           [[JStr ''0:1''], [JStr ''1:1'', JStr ''1:2'']]"
proof -
  have "crawlSubtree (plain_env sched) (JStr ''0:1'') batchSize concurrency (9 + m) =
        crawlSubtree (plain_env sched) (JStr ''0:1'') batchSize concurrency 9"
  proof (induction m)
    case 0
    then show ?case by simp
  next
    case (Suc m)
    have "crawlSubtree (plain_env sched) (JStr ''0:1'') batchSize concurrency (9 + Suc m) =
          step (plain_env sched) batchSize concurrency
            (crawlSubtree (plain_env sched) (JStr ''0:1'') batchSize concurrency (9 + m))"
      by (rule crawl_step[OF refl]) simp
    then show ?case unfolding Suc by (simp add: plain_crawl[OF assms] step_def)
  qed
  then show ?thesis by (simp add: plain_crawl[OF assms] result_def keys_of_def)
qed

theorem C7_scenario_witness:
  "(2::nat) \<le> 2 \<and> (1::nat) \<le> 3 \<and>
   result (crawlSubtree (plain_env (\<lambda>t. 0)) (JStr ''0:1'') 2 3 9) = Returned \<and>
   map fst (nodeMap (state (crawlSubtree (plain_env (\<lambda>t. 0)) (JStr ''0:1'') 2 3 9))) =
     [JStr ''0:1'', JStr ''1:1''] \<and>
   requests (state (crawlSubtree (plain_env (\<lambda>t. 0)) (JStr ''0:1'') 2 3 9)) =
     [[JStr ''0:1''], [JStr ''1:1'', JStr ''1:2'']]"
  using C7_scenario[of 2 3 "\<lambda>t. 0" 0] by simp

subsection \<open>Every queued identifier is requested, every request is gone through\<close>

lemma nth_remove:
  assumes "j < length xs" "j \<noteq> pos"
  shows "xs ! j \<in> set (take pos xs @ drop (Suc pos) xs)"
proof (cases "j < pos")
  case True
  then have "take pos xs ! j = xs ! j" "j < length (take pos xs)" using assms by simp_all
  then show ?thesis by (metis UnI1 nth_mem set_append)
next
  case False
  then have "Suc pos \<le> j" using assms(2) by simp
  then have "drop (Suc pos) xs ! (j - Suc pos) = xs ! j" "j - Suc pos < length (drop (Suc pos) xs)"
    using assms(1) by simp_all
  then show ?thesis by (metis UnI2 nth_mem set_append)
qed

lemma grows_covered:
  assumes "grows s s1" "set (queued s) \<subseteq> set (A @ B @ toExpand s)"
  shows "set (queued s1) \<subseteq> set (A @ B @ toExpand s1)"
proof -
  from assms(1) obtain new where "queued s1 = queued s @ new" "toExpand s1 = toExpand s @ new"
    by (auto simp: grows_def)
  then show ?thesis using assms(2) by auto
qed

lemma covered_step:
  assumes "covered c" "1 \<le> k"
  shows "covered (step e b k c)"
proof -
  define c' where "c' = step e b k c"
  let ?s = "state c"
  have q: "set (queued ?s) \<subseteq> set (concat (requests ?s) @ pending (control c) @ toExpand ?s)"
    using assms(1) by (simp add: covered_def)
  from c'_def have "covered c'"
  proof (cases rule: step_cases)
    case returns
    then show ?thesis using q by (simp add: covered_def pending_def)
  next
    case takes
    then show ?thesis using q by (simp add: covered_def pending_def)
  next
    case (splits bs)
    have "take b (toExpand ?s) = [] \<Longrightarrow> drop b (toExpand ?s) = toExpand ?s"
      by (metis append_take_drop_id append_Nil)
    moreover have "set (take b (toExpand ?s)) \<union> set (drop b (toExpand ?s)) = set (toExpand ?s)"
      by (metis append_take_drop_id set_append)
    ultimately show ?thesis using splits q by (auto simp add: covered_def pending_def)
  next
    case (launch bs)
    have "concat (take (min k (length bs)) bs) @ concat (drop (min k (length bs)) bs) = concat bs"
      by (metis append_take_drop_id concat_append)
    then have "set (concat (take (min k (length bs)) bs)) \<union> set (concat (drop (min k (length bs)) bs))
        = set (concat bs)" by (metis set_append)
    moreover have "min k (length bs) < length bs \<Longrightarrow> 0 < min k (length bs)"
      using assms(2) by simp
    ultimately show ?thesis using launch q
      by (auto simp add: covered_def pending_def simp del: set_concat)
  next
    case (resume p)
    then have "\<not> idx p < length (items p)" using assms(1) by (simp add: covered_def)
    then show ?thesis using resume q by (simp add: covered_def pending_def)
  next
    case (stuck p err)
    then show ?thesis using assms by simp
  next
    case (settle_fail p pos cur r err s1)
    have g: "grows ?s s1" using respond_props[OF settle_fail(5)] by blast
    from grows_covered[OF g q] show ?thesis using settle_fail g
      by (cases "rejection p") (simp_all add: covered_def pending_def grows_def)
  next
    case (settle_next p pos cur r s1)
    have g: "grows ?s s1" using respond_props[OF settle_next(5)] by blast
    have "concat (drop (idx p) (items p)) = items p ! idx p @ concat (drop (Suc (idx p)) (items p))"
      using settle_next(6) by (metis Cons_nth_drop_Suc concat.simps(2))
    then have "set (concat (drop (idx p) (items p))) =
        set (items p ! idx p) \<union> set (concat (drop (Suc (idx p)) (items p)))"
      by (metis set_append)
    with grows_covered[OF g q] show ?thesis using settle_next g
      by (auto simp add: covered_def pending_def grows_def simp del: set_concat)
  next
    case (settle_last p pos cur r s1)
    have g: "grows ?s s1" using respond_props[OF settle_last(5)] by blast
    from grows_covered[OF g q] show ?thesis using settle_last g
      by (simp add: covered_def pending_def grows_def)
  next
    case over
    then show ?thesis using assms by simp
  qed
  then show ?thesis by (simp add: c'_def)
qed

lemma covered_crawl: "1 \<le> k \<Longrightarrow> covered (crawlSubtree e rootId b k n)"
  unfolding crawlSubtree_def
  by (induction n)
     (simp_all add: covered_step, simp add: init_def covered_def enqueue_eq pending_def)

lemma processed_mono:
  assumes "processed e s r" "r < length (requests s)" "requests s' = requests s @ rs"
    "keys_of (nodeMap s) \<subseteq> keys_of (nodeMap s')"
  shows "processed e s' r"
proof -
  have "requests s' ! r = requests s ! r" using assms(2,3) by (simp add: nth_append)
  then show ?thesis using assms(1,4) unfolding processed_def by fastforce
qed

lemma failed_iff:
  "failed c \<longleftrightarrow> (\<exists>p err. control c = Awaiting p \<and> rejection p = Some err)"
  by (auto simp: failed_def result_def split: control.splits option.splits)

lemma settled_ok_step:
  assumes ok: "settled_ok e c" and lg: "logged c"
  shows "settled_ok e (step e b k c)"
proof -
  define c' where "c' = step e b k c"
  let ?s = "state c"
  have rc: "requestCount ?s = length (requests ?s)"
    using lg by (simp add: logged_def)
  have keep: "settled_ok e c'"
    if k1: "\<not> failed c \<or> failed c'" and k2: "requests (state c') = requests ?s @ rs"
      and k3: "keys_of (nodeMap ?s) \<subseteq> keys_of (nodeMap (state c'))"
      and k4: "\<And>r. r < length (requests ?s) \<Longrightarrow> Suc r \<notin> snd ` set (in_flight (control c')) \<Longrightarrow>
            Suc r \<in> snd ` set (in_flight (control c)) \<Longrightarrow> processed e (state c') r"
      and k5: "\<And>r. length (requests ?s) \<le> r \<Longrightarrow> r < length (requests (state c')) \<Longrightarrow>
            Suc r \<in> snd ` set (in_flight (control c'))"
    for rs
  proof (cases "failed c'")
    case True
    then show ?thesis by (simp add: settled_ok_def)
  next
    case False
    then have nf: "\<not> failed c" using k1 by blast
    have "processed e (state c') r"
      if r: "r < length (requests (state c'))" "Suc r \<notin> snd ` set (in_flight (control c'))" for r
    proof (cases "r < length (requests ?s)")
      case True
      show ?thesis
      proof (cases "Suc r \<in> snd ` set (in_flight (control c))")
        case True
        then show ?thesis using \<open>r < length (requests ?s)\<close> r(2) k4 by blast
      next
        case False
        then have "processed e ?s r" using ok nf True by (simp add: settled_ok_def)
        then show ?thesis using processed_mono[OF _ True k2 k3] by blast
      qed
    next
      case False
      then show ?thesis using k5[of r] r by simp
    qed
    then show ?thesis by (simp add: settled_ok_def)
  qed
  from c'_def have "settled_ok e c'"
  proof (cases rule: step_cases)
    case returns
    then show ?thesis by (intro keep[of "[]"]) (auto simp: failed_iff in_flight_def)
  next
    case takes
    then show ?thesis by (intro keep[of "[]"]) (auto simp: failed_iff in_flight_def)
  next
    case (splits bs)
    then show ?thesis by (intro keep[of "[]"]) (auto simp: failed_iff in_flight_def)
  next
    case (launch bs)
    show ?thesis
    proof (intro keep[of "take (min k (length bs)) bs"])
      show "\<not> failed c \<or> failed c'" using launch by (simp add: failed_iff)
      show "requests (state c') = requests ?s @ take (min k (length bs)) bs"
        using launch by simp
      show "keys_of (nodeMap ?s) \<subseteq> keys_of (nodeMap (state c'))" using launch by simp
      show "processed e (state c') r" if "Suc r \<in> snd ` set (in_flight (control c))" for r
        using that launch by (simp add: in_flight_def)
      show "Suc r \<in> snd ` set (in_flight (control c'))"
        if "length (requests ?s) \<le> r" "r < length (requests (state c'))" for r
      proof -
        have "r - length (requests ?s) < min k (length bs)" using that launch by auto
        moreover have "Suc r = requestCount ?s + 1 + (r - length (requests ?s))"
          using that rc by simp
        ultimately have "(r - length (requests ?s), Suc r) \<in>
            set (map (\<lambda>i. (i, requestCount ?s + 1 + i)) [0..<min k (length bs)])"
          by (simp add: image_iff)
        then show ?thesis using launch by (force simp: in_flight_def)
      qed
    qed
  next
    case (resume p)
    then show ?thesis by (intro keep[of "[]"]) (auto simp: failed_iff in_flight_def)
  next
    case (stuck p err)
    then show ?thesis using ok by simp
  next
    case (settle_fail p pos cur r err s1)
    then have "failed c'" by (cases "rejection p") (simp_all add: failed_iff)
    then show ?thesis by (simp add: settled_ok_def)
  next
    case (settle_next p pos cur r s1)
    note f = settle_facts[OF settle_next(1) lg settle_next(2,4)]
    note rp = respond_props[OF settle_next(5)]
    have g: "requests s1 = requests ?s" "requestCount s1 = requestCount ?s"
      "keys_of (nodeMap ?s) \<subseteq> keys_of (nodeMap s1)"
      using rp by (auto simp: grows_def)
    have dn: "processed e s1 (r - 1)"
      using rp f(4,5) g(1) by (auto simp: processed_def)
    have fl: "set (in_flight (control c')) \<subseteq>
        insert (idx p, Suc (length (requests ?s))) (set (inflight p))"
      using settle_next(7) g rc set_remove_nth[of pos "inflight p"]
      by (auto simp: in_flight_def dest: in_set_takeD in_set_dropD)
    show ?thesis
    proof (intro keep[of "[items p ! idx p]"])
      show "\<not> failed c \<or> failed c'" using settle_next by (auto simp add: failed_iff)
      show "requests (state c') = requests ?s @ [items p ! idx p]"
        using settle_next g by simp
      show "keys_of (nodeMap ?s) \<subseteq> keys_of (nodeMap (state c'))" using settle_next g by simp
      show "processed e (state c') r'"
        if h1: "r' < length (requests ?s)"
          and h2: "Suc r' \<notin> snd ` set (in_flight (control c'))"
          and h3: "Suc r' \<in> snd ` set (in_flight (control c))" for r'
      proof -
        obtain cur' where m: "(cur', Suc r') \<in> set (inflight p)"
          using h3 settle_next(1) by (auto simp: in_flight_def)
        then obtain j where j: "j < length (inflight p)" "inflight p ! j = (cur', Suc r')"
          by (auto simp: in_set_conv_nth)
        have "j = pos"
        proof (rule ccontr)
          assume "j \<noteq> pos"
          then have "(cur', Suc r') \<in> set (take pos (inflight p) @ drop (Suc pos) (inflight p))"
            using nth_remove[OF j(1), of pos] j(2) by simp
          then have "Suc r' \<in> snd ` set (in_flight (control c'))"
            using settle_next(7) by (force simp: in_flight_def)
          then show False using h2 by simp
        qed
        then have "r = Suc r'" using j settle_next(4) by simp
        then have "processed e s1 r'" using dn by simp
        then show ?thesis
          using processed_mono[of e s1 r' "state c'" "[items p ! idx p]"] h1 g settle_next(7)
          by simp
      qed
      show "Suc r' \<in> snd ` set (in_flight (control c'))"
        if "length (requests ?s) \<le> r'" "r' < length (requests (state c'))" for r'
      proof -
        have "r' = length (requests ?s)" using that settle_next(7) g by simp
        then show ?thesis using settle_next(7) g rc by (force simp: in_flight_def)
      qed
    qed
  next
    case (settle_last p pos cur r s1)
    note f = settle_facts[OF settle_last(1) lg settle_last(2,4)]
    note rp = respond_props[OF settle_last(5)]
    have g: "requests s1 = requests ?s" "requestCount s1 = requestCount ?s"
      "keys_of (nodeMap ?s) \<subseteq> keys_of (nodeMap s1)"
      using rp by (auto simp: grows_def)
    have dn: "processed e s1 (r - 1)"
      using rp f(4,5) g(1) by (auto simp: processed_def)
    show ?thesis
    proof (intro keep[of "[]"])
      show "\<not> failed c \<or> failed c'" using settle_last by (auto simp add: failed_iff)
      show "requests (state c') = requests ?s @ []" using settle_last g by simp
      show "keys_of (nodeMap ?s) \<subseteq> keys_of (nodeMap (state c'))" using settle_last g by simp
      show "processed e (state c') r'"
        if h1: "r' < length (requests ?s)"
          and h2: "Suc r' \<notin> snd ` set (in_flight (control c'))"
          and h3: "Suc r' \<in> snd ` set (in_flight (control c))" for r'
      proof -
        obtain cur' where m: "(cur', Suc r') \<in> set (inflight p)"
          using h3 settle_last(1) by (auto simp: in_flight_def)
        then obtain j where j: "j < length (inflight p)" "inflight p ! j = (cur', Suc r')"
          by (auto simp: in_set_conv_nth)
        have "j = pos"
        proof (rule ccontr)
          assume "j \<noteq> pos"
          then have "(cur', Suc r') \<in> set (take pos (inflight p) @ drop (Suc pos) (inflight p))"
            using nth_remove[OF j(1), of pos] j(2) by simp
          then have "Suc r' \<in> snd ` set (in_flight (control c'))"
            using settle_last(7) by (force simp: in_flight_def)
          then show False using h2 by simp
        qed
        then have "r = Suc r'" using j settle_last(4) by simp
        then have "processed e s1 r'" using dn by simp
        then show ?thesis using settle_last(7) by simp
      qed
      show "Suc r' \<in> snd ` set (in_flight (control c'))"
        if "length (requests ?s) \<le> r'" "r' < length (requests (state c'))" for r'
        using that settle_last(7) g by simp
    qed
  next
    case over
    then show ?thesis using ok by simp
  qed
  then show ?thesis by (simp add: c'_def)
qed

lemma settled_ok_crawl: "settled_ok e (crawlSubtree e rootId b k n)"
proof (induction n)
  case 0
  then show ?case by (simp add: crawlSubtree_def init_def settled_ok_def enqueue_eq)
next
  case (Suc n)
  have "crawlSubtree e rootId b k (Suc n) = step e b k (crawlSubtree e rootId b k n)"
    by (simp add: crawlSubtree_def)
  then show ?case using settled_ok_step[OF Suc logged_crawl] by simp
qed

subsection \<open>Where the stored nodes and the queued identifiers come from\<close>

lemma answered_append:
  assumes "answered e reqs p doc"
  shows "answered e (reqs @ rs) p doc"
proof -
  from assms obtain r data where r: "r < length reqs" "p \<in> set (reqs ! r)"
    "fetchNodes e (Suc r) (reqs ! r) = Inr data" "doc = document_of data p"
    unfolding answered_def by blast
  then have "r < length (reqs @ rs)" "(reqs @ rs) ! r = reqs ! r"
    by (simp_all add: nth_append)
  then show ?thesis unfolding answered_def using r by metis
qed

lemma sourced_append:
  assumes "sourced e s" "nodeMap s' = nodeMap s" "requests s' = requests s @ rs"
  shows "sourced e s'"
  unfolding sourced_def
proof (intro ballI, clarify)
  fix key nd assume "(key, nd) \<in> set (nodeMap s')"
  then have "(key, nd) \<in> set (nodeMap s)" using assms(2) by simp
  then obtain p doc where "answered e (requests s) p doc" "stored (hints e) doc nd"
    using assms(1) unfolding sourced_def by blast
  then show "\<exists>p doc. answered e (requests s') p doc \<and> stored (hints e) doc nd"
    using answered_append assms(3) by metis
qed

lemma visible_link_append: "visible_link e reqs \<subseteq> visible_link e (reqs @ rs)"
  unfolding visible_link_def using answered_append by blast

lemma reach_append:
  "(a, b) \<in> (visible_link e reqs)\<^sup>* \<Longrightarrow> (a, b) \<in> (visible_link e (reqs @ rs))\<^sup>*"
  using rtrancl_mono[OF visible_link_append] by blast

lemma reached_append:
  assumes "reached e rootId s" "queued s' = queued s" "requests s' = requests s @ rs"
  shows "reached e rootId s'"
  unfolding reached_def
proof
  fix i assume "i \<in> set (queued s')"
  then have "(rootId, i) \<in> (visible_link e (requests s))\<^sup>*"
    using assms(1,2) unfolding reached_def by simp
  then show "(rootId, i) \<in> (visible_link e (requests s'))\<^sup>*"
    unfolding assms(3) by (rule reach_append)
qed

lemma sourced_step:
  assumes sc: "sourced e (state c)" and lg: "logged c"
  shows "sourced e (state (step e b k c))"
proof -
  define c' where "c' = step e b k c"
  have ext: "sourced e s'"
    if "nodeMap s' = nodeMap (state c)" "requests s' = requests (state c) @ rs" for s' rs
    using sourced_append[OF sc that] .
  have via: "sourced e s1 \<and> requests s1 = requests (state c)"
    if ctl: "control c = Awaiting p" and pl: "pos < length (inflight p)"
      and cr: "inflight p ! pos = (cur, r)"
      and rs: "respond e (items p ! cur) r (state c) = (err, s1)" for p pos cur r err s1
  proof -
    note f = settle_facts[OF ctl lg pl cr]
    note rp = respond_props[OF rs]
    have rq: "requests s1 = requests (state c)" using rp by (auto simp: grows_def)
    have "\<exists>p' doc. answered e (requests s1) p' doc \<and> stored (hints e) doc nd"
      if m: "(key, nd) \<in> set (nodeMap s1)" for key nd
    proof (cases "(key, nd) \<in> set (nodeMap (state c))")
      case True
      then show ?thesis using sc rq unfolding sourced_def by fastforce
    next
      case False
      then obtain data i where d: "fetchNodes e r (items p ! cur) = Inr data"
        "i \<in> set (items p ! cur)" "stored (hints e) (document_of data i) nd"
        using rp m by blast
      have "answered e (requests (state c)) i (document_of data i)"
        unfolding answered_def using f d
        by (intro exI[of _ "r - 1"]) auto
      then show ?thesis using d(3) rq by auto
    qed
    then show ?thesis using rq unfolding sourced_def by auto
  qed
  from c'_def have "sourced e (state c')"
  proof (cases rule: step_cases)
    case returns
    then show ?thesis using sc by simp
  next
    case takes
    then show ?thesis by (intro ext[of _ "[]"]) simp_all
  next
    case (splits bs)
    then show ?thesis by (intro ext[of _ "[]"]) simp_all
  next
    case (launch bs)
    then show ?thesis by (intro ext[of _ "take (min k (length bs)) bs"]) simp_all
  next
    case (resume p)
    then show ?thesis using sc by simp
  next
    case (stuck p err)
    then show ?thesis using sc by simp
  next
    case (settle_fail p pos cur r err s1)
    then show ?thesis using via[OF settle_fail(1,2,4,5)] by simp
  next
    case (settle_next p pos cur r s1)
    have "sourced e s1" using via[OF settle_next(1,2,4,5)] by simp
    then have "sourced e (s1\<lparr>requestCount := requestCount s1 + 1,
                requests := requests s1 @ [items p ! idx p]\<rparr>)"
      by (rule sourced_append[where rs = "[items p ! idx p]"]) simp_all
    then show ?thesis using settle_next(7) by simp
  next
    case (settle_last p pos cur r s1)
    then show ?thesis using via[OF settle_last(1,2,4,5)] by simp
  next
    case over
    then show ?thesis using sc by simp
  qed
  then show ?thesis by (simp add: c'_def)
qed

lemma sourced_crawl: "sourced e (state (crawlSubtree e rootId b k n))"
proof (induction n)
  case 0
  then show ?case by (simp add: crawlSubtree_def init_def sourced_def enqueue_eq)
next
  case (Suc n)
  have "crawlSubtree e rootId b k (Suc n) = step e b k (crawlSubtree e rootId b k n)"
    by (simp add: crawlSubtree_def)
  then show ?case using sourced_step[OF Suc logged_crawl] by simp
qed

lemma reached_step:
  assumes rc: "reached e rootId (state c)" and lg: "logged c" and ac: "accounted c"
  shows "reached e rootId (state (step e b k c))"
proof -
  define c' where "c' = step e b k c"
  have ext: "reached e rootId s'"
    if "queued s' = queued (state c)" "requests s' = requests (state c) @ rs" for s' rs
    using reached_append[OF rc that] .
  have via: "reached e rootId s1 \<and> requests s1 = requests (state c)"
    if ctl: "control c = Awaiting p" and pl: "pos < length (inflight p)"
      and cr: "inflight p ! pos = (cur, r)"
      and rs: "respond e (items p ! cur) r (state c) = (err, s1)" for p pos cur r err s1
  proof -
    note f = settle_facts[OF ctl lg pl cr]
    note rp = respond_props[OF rs]
    have rq: "requests s1 = requests (state c)" using rp by (auto simp: grows_def)
    have "(rootId, x) \<in> (visible_link e (requests s1))\<^sup>*" if m: "x \<in> set (queued s1)" for x
    proof (cases "x \<in> set (queued (state c))")
      case True
      then show ?thesis using rc rq unfolding reached_def by auto
    next
      case False
      then obtain data i where d: "fetchNodes e r (items p ! cur) = Inr data"
        "i \<in> set (items p ! cur)" "shows_child (document_of data i) x"
        using rp m by blast
      have a: "answered e (requests (state c)) i (document_of data i)"
        unfolding answered_def using f d
        by (intro exI[of _ "r - 1"]) auto
      have "i \<in> set (requests (state c) ! (r - 1))" using f d(2) by simp
      moreover have "r - 1 < length (requests (state c))" using f by simp
      ultimately have "i \<in> set (concat (requests (state c)))"
        by (metis in_set_conv_nth UN_I set_concat)
      then have "i \<in> set (queued (state c))" using ac by (auto simp: accounted_def)
      then have "(rootId, i) \<in> (visible_link e (requests (state c)))\<^sup>*"
        using rc unfolding reached_def by auto
      moreover have "(i, x) \<in> visible_link e (requests (state c))"
        using a d(3) unfolding visible_link_def by auto
      ultimately show ?thesis using rq by (simp add: rtrancl.rtrancl_into_rtrancl)
    qed
    then show ?thesis using rq unfolding reached_def by auto
  qed
  from c'_def have "reached e rootId (state c')"
  proof (cases rule: step_cases)
    case returns
    then show ?thesis using rc by simp
  next
    case takes
    then show ?thesis by (intro ext[of _ "[]"]) simp_all
  next
    case (splits bs)
    then show ?thesis by (intro ext[of _ "[]"]) simp_all
  next
    case (launch bs)
    then show ?thesis by (intro ext[of _ "take (min k (length bs)) bs"]) simp_all
  next
    case (resume p)
    then show ?thesis using rc by simp
  next
    case (stuck p err)
    then show ?thesis using rc by simp
  next
    case (settle_fail p pos cur r err s1)
    then show ?thesis using via[OF settle_fail(1,2,4,5)] by simp
  next
    case (settle_next p pos cur r s1)
    have "reached e rootId s1" using via[OF settle_next(1,2,4,5)] by simp
    then have "reached e rootId (s1\<lparr>requestCount := requestCount s1 + 1,
                requests := requests s1 @ [items p ! idx p]\<rparr>)"
      by (rule reached_append[where rs = "[items p ! idx p]"]) simp_all
    then show ?thesis using settle_next(7) by simp
  next
    case (settle_last p pos cur r s1)
    then show ?thesis using via[OF settle_last(1,2,4,5)] by simp
  next
    case over
    then show ?thesis using rc by simp
  qed
  then show ?thesis by (simp add: c'_def)
qed

lemma reached_crawl: "reached e rootId (state (crawlSubtree e rootId b k n))"
proof (induction n)
  case 0
  then show ?case by (simp add: crawlSubtree_def init_def reached_def enqueue_eq)
next
  case (Suc n)
  have "crawlSubtree e rootId b k (Suc n) = step e b k (crawlSubtree e rootId b k n)"
    by (simp add: crawlSubtree_def)
  then show ?case using reached_step[OF Suc logged_crawl accounted_crawl] by simp
qed

lemma stored_known_visible:
  assumes "stored infer doc nd"
  shows "js_get (JObj (known nd)) ''visible'' \<noteq> JBool False"
proof -
  have n: "normalizeNode infer doc = Inr nd" and v: "isVisibleNode doc"
    using assms by (simp_all add: stored_def)
  have "map_of (known nd) ''visible'' = map_of (own_entries doc) ''visible''"
    by (rule normalizeNode_known_other(5)[OF n])
  then have "js_get (JObj (known nd)) ''visible'' = js_get doc ''visible''"
    by (simp add: js_get_def map_of_clearjunk)
  then show ?thesis using v by (simp add: isVisibleNode_def)
qed

text \<open>
  Claim C2. At every point of every crawl: every node in the result map is the normal
  form of a document that the fetcher returned for a requested identifier and whose
  \<^verbatim>\<open>visible\<close> is not \<^verbatim>\<open>false\<close>, and the node's own \<^verbatim>\<open>visible\<close> is not \<^verbatim>\<open>false\<close>; every
  identifier queued is the root or the \<^verbatim>\<open>id\<close> of a child entry, not marked invisible, of
  such a document; every identifier queued is reached from the root by a chain of such
  links; and only queued identifiers are requested. So an identifier that only invisible
  documents or invisible child entries lead to is in no request.
\<close>

theorem C2_invisible_pruned:
  fixes e rootId batchSize concurrency n
  defines "s \<equiv> state (crawlSubtree e rootId batchSize concurrency n)"
  shows "(\<forall>(key, nd) \<in> set (nodeMap s).
            js_get (JObj (known nd)) ''visible'' \<noteq> JBool False \<and>
            (\<exists>p doc. answered e (requests s) p doc \<and> truthy doc \<and> isVisibleNode doc \<and>
                     normalizeNode (hints e) doc = Inr nd)) \<and>
         (\<forall>i \<in> set (queued s).
            i = rootId \<or> (\<exists>p doc. answered e (requests s) p doc \<and> shows_child doc i)) \<and>
         (\<forall>i \<in> set (queued s). (rootId, i) \<in> (visible_link e (requests s))\<^sup>*) \<and>
         set (concat (requests s)) \<subseteq> set (queued s)"
proof -
  have sc: "sourced e s" unfolding s_def by (rule sourced_crawl)
  have rc: "reached e rootId s" unfolding s_def by (rule reached_crawl)
  have ac: "set (concat (requests s)) \<subseteq> set (queued s)"
    using accounted_crawl[of e rootId batchSize concurrency n]
    by (simp add: accounted_def s_def)
  have 1: "js_get (JObj (known nd)) ''visible'' \<noteq> JBool False \<and>
            (\<exists>p doc. answered e (requests s) p doc \<and> truthy doc \<and> isVisibleNode doc \<and>
                     normalizeNode (hints e) doc = Inr nd)"
    if "(key, nd) \<in> set (nodeMap s)" for key nd
  proof -
    from sc[unfolded sourced_def, THEN bspec, OF that]
    obtain p doc where a: "answered e (requests s) p doc" "stored (hints e) doc nd"
      by auto
    have "truthy doc" "isVisibleNode doc" "normalizeNode (hints e) doc = Inr nd"
      using a(2) by (simp_all add: stored_def)
    then have "\<exists>p doc. answered e (requests s) p doc \<and> truthy doc \<and> isVisibleNode doc \<and>
                     normalizeNode (hints e) doc = Inr nd"
      using a(1) by (intro exI[of _ p] exI[of _ doc]) simp
    then show ?thesis using stored_known_visible[OF a(2)] by (intro conjI)
  qed
  have 2: "i = rootId \<or> (\<exists>p doc. answered e (requests s) p doc \<and> shows_child doc i)"
    if "i \<in> set (queued s)" for i
  proof -
    have "(rootId, i) \<in> (visible_link e (requests s))\<^sup>*"
      by (rule rc[unfolded reached_def, THEN bspec, OF that])
    then show ?thesis
    proof (cases rule: rtranclE)
      case base
      then show ?thesis by simp
    next
      case (step y)
      from step(2) obtain doc where "answered e (requests s) y doc" "shows_child doc i"
        unfolding visible_link_def by auto
      then have "\<exists>p doc. answered e (requests s) p doc \<and> shows_child doc i"
        by (intro exI[of _ y] exI[of _ doc]) simp
      then show ?thesis by (rule disjI2)
    qed
  qed
  have a: "\<forall>(key, nd) \<in> set (nodeMap s).
            js_get (JObj (known nd)) ''visible'' \<noteq> JBool False \<and>
            (\<exists>p doc. answered e (requests s) p doc \<and> truthy doc \<and> isVisibleNode doc \<and>
                     normalizeNode (hints e) doc = Inr nd)"
  proof (rule ballI)
    fix x assume x: "x \<in> set (nodeMap s)"
    obtain key nd where xe: "x = (key, nd)" by (cases x)
    show "case x of (key, nd) \<Rightarrow>
            js_get (JObj (known nd)) ''visible'' \<noteq> JBool False \<and>
            (\<exists>p doc. answered e (requests s) p doc \<and> truthy doc \<and> isVisibleNode doc \<and>
                     normalizeNode (hints e) doc = Inr nd)"
      unfolding xe prod.case by (rule 1[OF x[unfolded xe]])
  qed
  have b: "\<forall>i \<in> set (queued s).
            i = rootId \<or> (\<exists>p doc. answered e (requests s) p doc \<and> shows_child doc i)"
  proof (rule ballI)
    fix i assume "i \<in> set (queued s)"
    then show "i = rootId \<or> (\<exists>p doc. answered e (requests s) p doc \<and> shows_child doc i)"
      by (rule 2)
  qed
  have c: "\<forall>i \<in> set (queued s). (rootId, i) \<in> (visible_link e (requests s))\<^sup>*"
    using rc unfolding reached_def .
  show ?thesis using a b c ac by (intro conjI)
qed

theorem C2_invisible_pruned_witness:
  "queued (state (crawlSubtree (tree_env (\<lambda>t. 0)) (JStr ''0:1'') 2 3 9)) =
     [JStr ''0:1'', JStr ''1:1''] \<and>
   nodeMap (state (crawlSubtree (tree_env (\<lambda>t. 0)) (JStr ''0:1'') 2 3 9)) =
     [(JStr ''0:1'', node_root), (JStr ''1:1'', node_A)] \<and>
   JStr ''1:2'' \<notin> set (concat (requests (state (crawlSubtree (tree_env (\<lambda>t. 0)) (JStr ''0:1'') 2 3 9)))) \<and>
   JStr ''2:1'' \<notin> set (concat (requests (state (crawlSubtree (tree_env (\<lambda>t. 0)) (JStr ''0:1'') 2 3 9))))"
  using C2_invisible_pruned[of "tree_env (\<lambda>t. 0)" "JStr ''0:1''" 2 3 9,
      THEN conjunct2, THEN conjunct2, THEN conjunct2]
  by (simp add: tree_crawl)

lemma lost_crawl:
  "crawlSubtree lost_env (JStr ''0:1'') 2 3 9 =
     \<lparr>state = \<lparr>nodeMap = [(JStr ''0:1'', node_root)], toExpand = [],
               queued = [JStr ''0:1'', JStr ''1:1''], fetchedCount = 1, requestCount = 2,
               requests = [[JStr ''0:1''], [JStr ''1:1'']]\<rparr>,
      control = Finished, clock = 2\<rparr>"
proof -
  let ?e = "lost_env" and ?r = "JStr ''0:1''"
  have r1: "respond lost_env [JStr ''0:1''] (Suc 0) s0 =
     (None, s0\<lparr>nodeMap := [(JStr ''0:1'', node_root)], fetchedCount := 1,
              queued := [JStr ''0:1'', JStr ''1:1''], toExpand := [JStr ''1:1'']\<rparr>)"
    by (simp add: respond_def lost_env_def fetchNodes_file nodes_of_reply visit_cases doc_at_def
        normalize_root s0_def enqueue_eq fresh_def keys_of_def node_root_def)
  have r2: "respond lost_env [JStr ''1:1''] 2
     \<lparr>nodeMap = [(JStr ''0:1'', node_root)], toExpand = [],
      queued = [JStr ''0:1'', JStr ''1:1''], fetchedCount = Suc 0, requestCount = 2,
      requests = [[JStr ''0:1''], [JStr ''1:1'']]\<rparr> =
     (None,
      \<lparr>nodeMap = [(JStr ''0:1'', node_root)], toExpand = [],
       queued = [JStr ''0:1'', JStr ''1:1''], fetchedCount = Suc 0, requestCount = 2,
       requests = [[JStr ''0:1''], [JStr ''1:1'']]\<rparr>)"
    by (simp add: respond_def lost_env_def fetchNodes_file nodes_of_reply visit_cases doc_at_def
        js_get_def)
  have c0: "crawlSubtree ?e ?r 2 3 0 =
     \<lparr>state = \<lparr>nodeMap = [], toExpand = [JStr ''0:1''], queued = [JStr ''0:1''],
               fetchedCount = 0, requestCount = 0, requests = []\<rparr>,
      control = Outer, clock = 0\<rparr>"
    by (simp add: crawlSubtree_def init_def enqueue_def)
  have c1: "crawlSubtree ?e ?r 2 3 1 =
     \<lparr>state = \<lparr>nodeMap = [], toExpand = [], queued = [JStr ''0:1''],
               fetchedCount = 0, requestCount = 0, requests = []\<rparr>,
      control = Presplit [[JStr ''0:1'']], clock = 0\<rparr>"
    using crawl_step[OF c0, of 1] by (simp add: step_def)
  have c2: "crawlSubtree ?e ?r 2 3 2 =
     \<lparr>state = s0,
      control = Awaiting \<lparr>items = [[JStr ''0:1'']], idx = 1, inflight = [(0, 1)], rejection = None\<rparr>,
      clock = 0\<rparr>"
    using crawl_step[OF c1, of 2] by (simp add: step_def mapLimit_request s0_def)
  have c3: "crawlSubtree ?e ?r 2 3 3 =
     \<lparr>state = s0\<lparr>nodeMap := [(JStr ''0:1'', node_root)], fetchedCount := 1,
              queued := [JStr ''0:1'', JStr ''1:1''], toExpand := [JStr ''1:1'']\<rparr>,
      control = Awaiting \<lparr>items = [[JStr ''0:1'']], idx = 1, inflight = [], rejection = None\<rparr>,
      clock = 1\<rparr>"
    using crawl_step[OF c2, of 3] by (simp add: step_def settle_def worker_request r1 Let_def)
  have c4: "crawlSubtree ?e ?r 2 3 4 =
     \<lparr>state = s0\<lparr>nodeMap := [(JStr ''0:1'', node_root)], fetchedCount := 1,
              queued := [JStr ''0:1'', JStr ''1:1''], toExpand := [JStr ''1:1'']\<rparr>,
      control = Outer, clock = 1\<rparr>"
    using crawl_step[OF c3, of 4] by (simp add: step_def)
  have c5: "crawlSubtree ?e ?r 2 3 5 =
     \<lparr>state = s0\<lparr>nodeMap := [(JStr ''0:1'', node_root)], fetchedCount := 1,
              queued := [JStr ''0:1'', JStr ''1:1''], toExpand := []\<rparr>,
      control = Presplit [[JStr ''1:1'']], clock = 1\<rparr>"
    using crawl_step[OF c4, of 5] by (simp add: step_def s0_def)
  have c6: "crawlSubtree ?e ?r 2 3 6 =
     \<lparr>state = \<lparr>nodeMap = [(JStr ''0:1'', node_root)], toExpand = [],
      queued = [JStr ''0:1'', JStr ''1:1''], fetchedCount = 1, requestCount = 2,
      requests = [[JStr ''0:1''], [JStr ''1:1'']]\<rparr>,
      control = Awaiting \<lparr>items = [[JStr ''1:1'']], idx = 1, inflight = [(0, 2)], rejection = None\<rparr>,
      clock = 1\<rparr>"
    using crawl_step[OF c5, of 6] by (simp add: step_def mapLimit_request s0_def)
  have c7: "crawlSubtree ?e ?r 2 3 7 =
     \<lparr>state = \<lparr>nodeMap = [(JStr ''0:1'', node_root)], toExpand = [],
       queued = [JStr ''0:1'', JStr ''1:1''], fetchedCount = 1, requestCount = 2,
       requests = [[JStr ''0:1''], [JStr ''1:1'']]\<rparr>,
      control = Awaiting \<lparr>items = [[JStr ''1:1'']], idx = 1, inflight = [], rejection = None\<rparr>,
      clock = 2\<rparr>"
    using crawl_step[OF c6, of 7] by (simp add: step_def settle_def worker_request r2 Let_def)
  have c8: "crawlSubtree ?e ?r 2 3 8 =
     \<lparr>state = \<lparr>nodeMap = [(JStr ''0:1'', node_root)], toExpand = [],
       queued = [JStr ''0:1'', JStr ''1:1''], fetchedCount = 1, requestCount = 2,
       requests = [[JStr ''0:1''], [JStr ''1:1'']]\<rparr>,
      control = Outer, clock = 2\<rparr>"
    using crawl_step[OF c7, of 8] by (simp add: step_def)
  show ?thesis
    using crawl_step[OF c8, of 9] by (simp add: step_def)
qed

text \<open>
  Claim C3, as stated, on a file that has the root and has lost the document of A, the
  root's visible child: every request is answered with success, the crawl returns, and
  the result map holds the root, whose \<^verbatim>\<open>childIds\<close> name A, and has no key for A.
\<close>

theorem C3_dangling_child:
  "result (crawlSubtree lost_env (JStr ''0:1'') 2 3 9) = Returned \<and>
   nodeMap (state (crawlSubtree lost_env (JStr ''0:1'') 2 3 9)) = [(JStr ''0:1'', node_root)] \<and>
   childIds node_root = [JStr ''1:1''] \<and>
   JStr ''1:1'' \<notin> keys_of (nodeMap (state (crawlSubtree lost_env (JStr ''0:1'') 2 3 9))) \<and>
   fetchNodes lost_env 1 [JStr ''0:1''] = Inr (reply [(''0:1'', doc_root)] [JStr ''0:1'']) \<and>
   fetchNodes lost_env 2 [JStr ''1:1''] = Inr (reply [(''0:1'', doc_root)] [JStr ''1:1''])"
proof -
  have "fetchNodes lost_env 1 [JStr ''0:1''] = Inr (reply [(''0:1'', doc_root)] [JStr ''0:1''])"
    "fetchNodes lost_env 2 [JStr ''1:1''] = Inr (reply [(''0:1'', doc_root)] [JStr ''1:1''])"
    by (simp_all add: lost_env_def fetchNodes_file)
  then show ?thesis
    by (simp add: lost_crawl result_def node_root_def keys_of_def)
qed

text \<open>
  Claim C3, amended. When the concurrency is at least 1 and the crawl has returned, every
  identifier in the \<^verbatim>\<open>childIds\<close> of a node of the result map is a key of the map, or
  else it was requested and the answer to that request, a success, held for it no
  document, a document with \<^verbatim>\<open>visible\<close> \<^verbatim>\<open>false\<close>, or a document with another \<^verbatim>\<open>id\<close>
  (one of the two holds; an identifier with such an answer may still be a key).
\<close>

theorem C3_children_resolved:
  fixes e rootId batchSize concurrency n
  defines "s \<equiv> state (crawlSubtree e rootId batchSize concurrency n)"
  assumes "1 \<le> concurrency"
    and "result (crawlSubtree e rootId batchSize concurrency n) = Returned"
  shows "\<forall>(key, nd) \<in> set (nodeMap s). \<forall>c \<in> set (childIds nd).
           c \<in> keys_of (nodeMap s) \<or>
           (\<exists>r < length (requests s). c \<in> set (requests s ! r) \<and>
              (\<exists>data. fetchNodes e (Suc r) (requests s ! r) = Inr data \<and>
                 \<not> (truthy (document_of data c) \<and> isVisibleNode (document_of data c) \<and>
                    js_get (document_of data c) ''id'' = c)))"
proof -
  let ?c = "crawlSubtree e rootId batchSize concurrency n"
  have fin: "control ?c = Finished"
    using assms(3) by (auto simp: result_def split: control.splits option.splits)
  have te: "toExpand s = []"
    using logged_crawl[of e rootId batchSize concurrency n] fin by (simp add: logged_def s_def)
  have cv: "set (queued s) \<subseteq> set (concat (requests s))"
    using covered_crawl[OF assms(2), of e rootId batchSize n] fin te
    by (simp add: covered_def pending_def s_def)
  have nf: "\<not> failed ?c" using fin by (simp add: failed_iff)
  have pr: "processed e s r" if "r < length (requests s)" for r
    using settled_ok_crawl[of e rootId batchSize concurrency n] nf fin that
    by (simp add: settled_ok_def in_flight_def s_def)
  have tr: "tracked s" unfolding s_def by (rule tracked_crawl)
  have "c \<in> keys_of (nodeMap s) \<or>
           (\<exists>r < length (requests s). c \<in> set (requests s ! r) \<and>
              (\<exists>data. fetchNodes e (Suc r) (requests s ! r) = Inr data \<and>
                 \<not> (truthy (document_of data c) \<and> isVisibleNode (document_of data c) \<and>
                    js_get (document_of data c) ''id'' = c)))"
    if m: "(key, nd) \<in> set (nodeMap s)" "c \<in> set (childIds nd)" for key nd c
  proof (cases "c \<in> keys_of (nodeMap s)")
    case True
    then show ?thesis by simp
  next
    case False
    then have "c \<in> set (queued s)" using tr m unfolding tracked_def by blast
    then have "c \<in> set (concat (requests s))" using cv by blast
    then obtain ys where "ys \<in> set (requests s)" "c \<in> set ys" by auto
    then obtain r where r: "r < length (requests s)" "c \<in> set (requests s ! r)"
      by (auto simp: in_set_conv_nth)
    from pr[OF r(1)] obtain data where d: "fetchNodes e (Suc r) (requests s ! r) = Inr data"
      "\<forall>i \<in> set (requests s ! r).
           truthy (document_of data i) \<longrightarrow> isVisibleNode (document_of data i) \<longrightarrow>
           js_get (document_of data i) ''id'' \<in> keys_of (nodeMap s)"
      unfolding processed_def by blast
    have "\<not> (truthy (document_of data c) \<and> isVisibleNode (document_of data c) \<and>
                    js_get (document_of data c) ''id'' = c)"
      using d(2) r(2) False by auto
    then show ?thesis using r d(1) by blast
  qed
  note main = this
  show ?thesis
  proof (rule ballI)
    fix x assume x: "x \<in> set (nodeMap s)"
    obtain key nd where xe: "x = (key, nd)" by (cases x)
    show "case x of (key, nd) \<Rightarrow> \<forall>c \<in> set (childIds nd).
           c \<in> keys_of (nodeMap s) \<or>
           (\<exists>r < length (requests s). c \<in> set (requests s ! r) \<and>
              (\<exists>data. fetchNodes e (Suc r) (requests s ! r) = Inr data \<and>
                 \<not> (truthy (document_of data c) \<and> isVisibleNode (document_of data c) \<and>
                    js_get (document_of data c) ''id'' = c)))"
      unfolding xe prod.case using main[of key nd] x xe by blast
  qed
qed

theorem C3_children_resolved_witness:
  "(1::nat) \<le> 3 \<and>
   result (crawlSubtree (tree_env (\<lambda>t. 0)) (JStr ''0:1'') 2 3 9) = Returned \<and>
   nodeMap (state (crawlSubtree (tree_env (\<lambda>t. 0)) (JStr ''0:1'') 2 3 9)) =
     [(JStr ''0:1'', node_root), (JStr ''1:1'', node_A)] \<and>
   childIds node_root = [JStr ''1:1''] \<and> childIds node_A = []"
  using C3_children_resolved[of 3 "tree_env (\<lambda>t. 0)" "JStr ''0:1''" 2 9]
  by (simp add: tree_crawl result_def node_root_def node_A_def)

text \<open>
  Claim C10. At every point of every crawl, every entry of the result map is under the
  \<^verbatim>\<open>id\<close> of the node it holds, and this is the \<^verbatim>\<open>id\<close> field of the document that was
  normalized into the node: a document that is there and not invisible, that the fetcher
  gave in its answer to a request made for some identifier \<open>p\<close>, which need not be the key.
\<close>

theorem C10_key_is_id:
  "\<forall>(key, nd) \<in> set (nodeMap (state (crawlSubtree e rootId batchSize concurrency n))).
     key = node_id nd \<and>
     (\<exists>p doc. answered e (requests (state (crawlSubtree e rootId batchSize concurrency n))) p doc \<and>
        truthy doc \<and> isVisibleNode doc \<and> normalizeNode (hints e) doc = Inr nd \<and>
        node_id nd = js_get doc ''id'')"
proof (rule ballI)
  fix x assume x: "x \<in> set (nodeMap (state (crawlSubtree e rootId batchSize concurrency n)))"
  obtain key nd where xe: "x = (key, nd)" by (cases x)
  have k: "key = node_id nd"
    using keyed_crawl[of e rootId batchSize concurrency n, unfolded keyed_def, THEN bspec, OF x]
    by (simp add: xe)
  obtain p doc where a: "answered e (requests (state (crawlSubtree e rootId batchSize concurrency n))) p doc"
    and st: "stored (hints e) doc nd"
    using sourced_crawl[of e rootId batchSize concurrency n, unfolded sourced_def, THEN bspec, OF x]
    by (auto simp: xe)
  have "node_id nd = js_get doc ''id''"
    using st by (auto simp: stored_def intro: node_id_normalizeNode)
  then show "case x of (key, nd) \<Rightarrow> key = node_id nd \<and>
     (\<exists>p doc. answered e (requests (state (crawlSubtree e rootId batchSize concurrency n))) p doc \<and>
        truthy doc \<and> isVisibleNode doc \<and> normalizeNode (hints e) doc = Inr nd \<and>
        node_id nd = js_get doc ''id'')"
    unfolding xe prod.case using k a st by (auto simp: stored_def)
qed

theorem C10_key_is_id_witness:
  "nodeMap (state (crawlSubtree alias_env (JStr ''0:1'') 1 1 3)) = [(JStr ''1:1'', node_A)] \<and>
   requests (state (crawlSubtree alias_env (JStr ''0:1'') 1 1 3)) = [[JStr ''0:1'']] \<and>
   JStr ''1:1'' = node_id node_A \<and>
   (\<exists>p doc. answered alias_env [[JStr ''0:1'']] p doc \<and> truthy doc \<and> isVisibleNode doc \<and>
      normalizeNode (hints alias_env) doc = Inr node_A \<and> node_id node_A = js_get doc ''id'')"
  using C10_key_is_id[of alias_env "JStr ''0:1''" 1 1 3]
  by (simp add: alias_crawl[unfolded One_nat_def])

subsection \<open>A crawl that has failed\<close>








subsection \<open>A crawl in which one request of two fails\<close>

lemma normalize_pair_shown: "truthy doc_pair" "isVisibleNode doc_pair" "truthy doc_D" "isVisibleNode doc_D"
  by simp_all








end
